theory Spec2Isabelle
  imports Main
begin

section \<open>Data model\<close>

text \<open>
  The engine of \<^verbatim>\<open>chess_pygame.py\<close>. A piece is the dictionary
  \<^verbatim>\<open>{'type': 'KQRBNP', 'color': 'w' or 'b'}\<close>, a record of two strings here; a board is a
  list of rows, each a list of optional pieces; a move is a pair of squares, a square a pair
  of Python integers \<^verbatim>\<open>(r, c)\<close>.
\<close>

record Piece =
  ptype :: string
  pcolor :: string

type_synonym Board = "Piece option list list"
type_synonym Square = "int \<times> int"
type_synonym Move = "Square \<times> Square"

text \<open>
  The source raises nothing itself; what can fail is list indexing (\<^verbatim>\<open>IndexError\<close>) and,
  for values that are not lists or piece dictionaries, subscripting (\<^verbatim>\<open>TypeError\<close>,
  \<^verbatim>\<open>KeyError\<close>); the last two arise only in the model with an explicit store below, since
  the type \<open>Board\<close> admits no such values. \<open>OutOfFuel\<close> and \<open>BadAddress\<close> belong to the
  model only: the \<^verbatim>\<open>while in_bounds(rr, cc)\<close> loops are recursions on a step budget, and
  running out of it is reported instead of being hidden; a reference to an object that
  the store does not hold, which Python cannot produce, is reported as well.
\<close>

datatype error = IndexError | TypeError | KeyError | BadAddress | OutOfFuel

definition ebind :: "error + 'a \<Rightarrow> ('a \<Rightarrow> error + 'b) \<Rightarrow> error + 'b" where
  "ebind m f = (case m of Inl e \<Rightarrow> Inl e | Inr x \<Rightarrow> f x)"

text \<open>A \<^verbatim>\<open>for x in xs:\<close> loop that updates one variable and may raise.\<close>

fun for_each :: "'a list \<Rightarrow> ('a \<Rightarrow> 's \<Rightarrow> error + 's) \<Rightarrow> 's \<Rightarrow> error + 's" where
  "for_each [] body s = Inr s"
| "for_each (x # xs) body s =
     (case body x s of Inl e \<Rightarrow> Inl e | Inr s' \<Rightarrow> for_each xs body s')"

definition ROWS :: int where "ROWS = 8"
definition COLS :: int where "COLS = 8"

definition py_range :: "int \<Rightarrow> int list" where
  "py_range n = [0..n - 1]"

text \<open>Python list indexing: a negative index counts from the end, anything else out of
  range raises.\<close>

definition py_index :: "'a list \<Rightarrow> int \<Rightarrow> error + nat" where
  "py_index xs i =
     (let n = int (length xs)
      in if 0 \<le> i \<and> i < n then Inr (nat i)
         else if - n \<le> i \<and> i < 0 then Inr (nat (n + i))
         else Inl IndexError)"

definition py_get :: "'a list \<Rightarrow> int \<Rightarrow> error + 'a" where
  "py_get xs i = ebind (py_index xs i) (\<lambda>j. Inr (xs ! j))"

definition py_set :: "'a list \<Rightarrow> int \<Rightarrow> 'a \<Rightarrow> error + 'a list" where
  "py_set xs i v = ebind (py_index xs i) (\<lambda>j. Inr (xs[j := v]))"

text \<open>\<^verbatim>\<open>board[r][c]\<close> and \<^verbatim>\<open>board[r][c] = v\<close>.\<close>

definition board_get :: "Board \<Rightarrow> int \<Rightarrow> int \<Rightarrow> error + Piece option" where
  "board_get board r c = ebind (py_get board r) (\<lambda>row. py_get row c)"

definition board_set :: "Board \<Rightarrow> int \<Rightarrow> int \<Rightarrow> Piece option \<Rightarrow> error + Board" where
  "board_set board r c v =
     ebind (py_get board r) (\<lambda>row.
     ebind (py_set row c v) (\<lambda>row'.
     py_set board r row'))"

section \<open>Utilities\<close>

definition in_bounds :: "int \<Rightarrow> int \<Rightarrow> bool" where
  "in_bounds r c \<longleftrightarrow> 0 \<le> r \<and> r < ROWS \<and> 0 \<le> c \<and> c < COLS"

text \<open>The nested loops \<^verbatim>\<open>for r in range(ROWS): for c in range(COLS):\<close> visit the squares
  in row-major order.\<close>

definition all_squares :: "Square list" where
  "all_squares = concat (map (\<lambda>r. map (\<lambda>c. (r, c)) (py_range COLS)) (py_range ROWS))"

definition empty_board :: Board where
  "empty_board = replicate (nat ROWS) (replicate (nat COLS) None)"

definition copy_cell :: "Board \<Rightarrow> Square \<Rightarrow> Board \<Rightarrow> error + Board" where
  "copy_cell board sq new_board =
     (case sq of (r, c) \<Rightarrow>
        ebind (board_get board r c) (\<lambda>p.
          case p of
            None \<Rightarrow> board_set new_board r c None
          | Some d \<Rightarrow> board_set new_board r c (Some \<lparr>ptype = ptype d, pcolor = pcolor d\<rparr>)))"

definition deep_copy_board :: "Board \<Rightarrow> error + Board" where
  "deep_copy_board board = for_each all_squares (copy_cell board) empty_board"

section \<open>Chess logic\<close>

definition put :: "int \<Rightarrow> int \<Rightarrow> string \<Rightarrow> string \<Rightarrow> Board \<Rightarrow> error + Board" where
  "put r c t color board = board_set board r c (Some \<lparr>ptype = t, pcolor = color\<rparr>)"

definition initial_board :: "error + Board" where
  "initial_board =
     ebind (for_each (py_range COLS)
              (\<lambda>c board. ebind (put 6 c ''P'' ''w'' board) (put 1 c ''P'' ''b''))
              empty_board) (\<lambda>board.
     ebind (put 7 0 ''R'' ''w'' board) (\<lambda>board.
     ebind (put 7 7 ''R'' ''w'' board) (\<lambda>board.
     ebind (put 0 0 ''R'' ''b'' board) (\<lambda>board.
     ebind (put 0 7 ''R'' ''b'' board) (\<lambda>board.
     ebind (put 7 1 ''N'' ''w'' board) (\<lambda>board.
     ebind (put 7 6 ''N'' ''w'' board) (\<lambda>board.
     ebind (put 0 1 ''N'' ''b'' board) (\<lambda>board.
     ebind (put 0 6 ''N'' ''b'' board) (\<lambda>board.
     ebind (put 7 2 ''B'' ''w'' board) (\<lambda>board.
     ebind (put 7 5 ''B'' ''w'' board) (\<lambda>board.
     ebind (put 0 2 ''B'' ''b'' board) (\<lambda>board.
     ebind (put 0 5 ''B'' ''b'' board) (\<lambda>board.
     ebind (put 7 3 ''Q'' ''w'' board) (\<lambda>board.
     ebind (put 0 3 ''Q'' ''b'' board) (\<lambda>board.
     ebind (put 7 4 ''K'' ''w'' board) (\<lambda>board.
     put 0 4 ''K'' ''b'' board))))))))))))))))"

text \<open>\<^verbatim>\<open>find_king\<close> returns from inside the nested loops at the first king of the colour.\<close>

fun find_king_in :: "Square list \<Rightarrow> Board \<Rightarrow> string \<Rightarrow> error + Square option" where
  "find_king_in [] board color = Inr None"
| "find_king_in ((r, c) # sqs) board color =
     (case board_get board r c of
        Inl e \<Rightarrow> Inl e
      | Inr p \<Rightarrow>
          (case p of
             None \<Rightarrow> find_king_in sqs board color
           | Some d \<Rightarrow>
               if ptype d = ''K'' \<and> pcolor d = color then Inr (Some (r, c))
               else find_king_in sqs board color))"

definition find_king :: "Board \<Rightarrow> string \<Rightarrow> error + Square option" where
  "find_king board color = find_king_in all_squares board color"

definition rook_dirs :: "(int \<times> int) list" where
  "rook_dirs = [(-1, 0), (1, 0), (0, -1), (0, 1)]"

definition bishop_dirs :: "(int \<times> int) list" where
  "bishop_dirs = [(-1, -1), (-1, 1), (1, -1), (1, 1)]"

definition knight_offsets :: "(int \<times> int) list" where
  "knight_offsets = [(-2, -1), (-2, 1), (-1, -2), (-1, 2), (1, -2), (1, 2), (2, -1), (2, 1)]"

text \<open>\<^verbatim>\<open>for dr in (-1, 0, 1): for dc in (-1, 0, 1): if dr == 0 and dc == 0: continue\<close>.\<close>

definition king_offsets :: "(int \<times> int) list" where
  "king_offsets =
     filter (\<lambda>(dr, dc). \<not> (dr = 0 \<and> dc = 0))
       (concat (map (\<lambda>dr. map (\<lambda>dc. (dr, dc)) [-1, 0, 1]) [-1, 0, 1]))"

text \<open>A ray on the board leaves it after at most seven steps; the budget handed to the
  ray loops is \<open>ROWS\<close>, and the lemmas below show that it is never used up.\<close>

definition ray_fuel :: nat where
  "ray_fuel = nat ROWS"

text \<open>The body \<^verbatim>\<open>rr, cc = r + dr, c + dc; if in_bounds(rr, cc): attacked.add((rr, cc))\<close>.\<close>

definition attack_offset :: "int \<Rightarrow> int \<Rightarrow> int \<times> int \<Rightarrow> Square set \<Rightarrow> Square set" where
  "attack_offset r c d attacked =
     (case d of (dr, dc) \<Rightarrow>
        let rr = r + dr; cc = c + dc
        in if in_bounds rr cc then insert (rr, cc) attacked else attacked)"

text \<open>The loop \<^verbatim>\<open>while in_bounds(rr, cc): attacked.add((rr, cc)); if board[rr][cc] is not
  None: break; rr += dr; cc += dc\<close>.\<close>

fun attack_ray ::
  "nat \<Rightarrow> Board \<Rightarrow> int \<Rightarrow> int \<Rightarrow> int \<Rightarrow> int \<Rightarrow> Square set \<Rightarrow> error + Square set" where
  "attack_ray 0 board rr cc dr dc attacked =
     (if in_bounds rr cc then Inl OutOfFuel else Inr attacked)"
| "attack_ray (Suc n) board rr cc dr dc attacked =
     (if in_bounds rr cc then
        (case board_get board rr cc of
           Inl e \<Rightarrow> Inl e
         | Inr q \<Rightarrow>
             if q \<noteq> None then Inr (insert (rr, cc) attacked)
             else attack_ray n board (rr + dr) (cc + dc) dr dc (insert (rr, cc) attacked))
      else Inr attacked)"

definition attack_rays ::
  "(int \<times> int) list \<Rightarrow> Board \<Rightarrow> int \<Rightarrow> int \<Rightarrow> Square set \<Rightarrow> error + Square set" where
  "attack_rays dirs board r c attacked =
     for_each dirs
       (\<lambda>(dr, dc) att. attack_ray ray_fuel board (r + dr) (c + dc) dr dc att) attacked"

definition attack_step :: "Board \<Rightarrow> string \<Rightarrow> Square \<Rightarrow> Square set \<Rightarrow> error + Square set" where
  "attack_step board color sq attacked =
     (case sq of (r, c) \<Rightarrow>
        ebind (board_get board r c) (\<lambda>p.
          case p of
            None \<Rightarrow> Inr attacked
          | Some d \<Rightarrow>
              if pcolor d \<noteq> color then Inr attacked
              else
                let t = ptype d in
                if t = ''P'' then
                  (let dir_forward = (if color = ''w'' then -1 else 1)
                   in Inr (fold (\<lambda>dc. attack_offset r c (dir_forward, dc)) [-1, 1] attacked))
                else if t = ''N'' then Inr (fold (attack_offset r c) knight_offsets attacked)
                else if t = ''K'' then Inr (fold (attack_offset r c) king_offsets attacked)
                else if t = ''R'' then attack_rays rook_dirs board r c attacked
                else if t = ''B'' then attack_rays bishop_dirs board r c attacked
                else if t = ''Q'' then attack_rays (rook_dirs @ bishop_dirs) board r c attacked
                else Inr attacked))"

text \<open>The source collects the squares in a Python \<^verbatim>\<open>set\<close> and returns \<^verbatim>\<open>list(attacked)\<close>,
  a list without repetitions in an order Python does not fix; the model keeps the set.\<close>

definition squares_attacked_by :: "Board \<Rightarrow> string \<Rightarrow> error + Square set" where
  "squares_attacked_by board color = for_each all_squares (attack_step board color) {}"

definition is_in_check :: "Board \<Rightarrow> string \<Rightarrow> error + bool" where
  "is_in_check board color =
     ebind (find_king board color) (\<lambda>king_pos.
       case king_pos of
         None \<Rightarrow> Inr False
       | Some kp \<Rightarrow>
           let enemy = (if color = ''w'' then ''b'' else ''w'')
           in ebind (squares_attacked_by board enemy) (\<lambda>attacked. Inr (kp \<in> attacked)))"

text \<open>\<^verbatim>\<open>add_move\<close> appends to the list of moves.\<close>

definition add_move :: "int \<Rightarrow> int \<Rightarrow> int \<Rightarrow> int \<Rightarrow> Move list \<Rightarrow> Move list" where
  "add_move r1 c1 r2 c2 moves = moves @ [((r1, c1), (r2, c2))]"

text \<open>The pawn's forward steps: one square if it is empty, and then two from the start row
  if that square is empty as well.\<close>

definition pawn_forward ::
  "Board \<Rightarrow> string \<Rightarrow> int \<Rightarrow> int \<Rightarrow> Move list \<Rightarrow> error + Move list" where
  "pawn_forward board color r c moves =
     (let dir_forward = (if color = ''w'' then -1 else 1);
          start_row = (if color = ''w'' then 6 else 1);
          r1 = r + dir_forward
      in if in_bounds r1 c then
           ebind (board_get board r1 c) (\<lambda>q1.
             if q1 = None then
               (let moves1 = add_move r c r1 c moves; r2 = r + 2 * dir_forward
                in if r = start_row \<and> in_bounds r2 c then
                     ebind (board_get board r2 c) (\<lambda>q2.
                       if q2 = None then Inr (add_move r c r2 c moves1) else Inr moves1)
                   else Inr moves1)
             else Inr moves)
         else Inr moves)"

text \<open>One round of \<^verbatim>\<open>for dc in (-1, 1):\<close>, the pawn's diagonal capture.\<close>

definition pawn_capture ::
  "Board \<Rightarrow> string \<Rightarrow> int \<Rightarrow> int \<Rightarrow> int \<Rightarrow> Move list \<Rightarrow> error + Move list" where
  "pawn_capture board color r c dc moves =
     (let dir_forward = (if color = ''w'' then -1 else 1);
          cc = c + dc; rr = r + dir_forward
      in if in_bounds rr cc then
           ebind (board_get board rr cc) (\<lambda>q.
             case q of
               None \<Rightarrow> Inr moves
             | Some d \<Rightarrow> if pcolor d \<noteq> color then Inr (add_move r c rr cc moves) else Inr moves)
         else Inr moves)"

text \<open>One round of the knight's and of the king's loop over their offsets.\<close>

definition step_move ::
  "Board \<Rightarrow> string \<Rightarrow> int \<Rightarrow> int \<Rightarrow> int \<times> int \<Rightarrow> Move list \<Rightarrow> error + Move list" where
  "step_move board color r c d moves =
     (case d of (dr, dc) \<Rightarrow>
        let rr = r + dr; cc = c + dc
        in if \<not> in_bounds rr cc then Inr moves
           else
             ebind (board_get board rr cc) (\<lambda>q.
               case q of
                 None \<Rightarrow> Inr (add_move r c rr cc moves)
               | Some d \<Rightarrow>
                   if pcolor d \<noteq> color then Inr (add_move r c rr cc moves) else Inr moves))"

text \<open>The sliding loop \<^verbatim>\<open>while in_bounds(rr, cc):\<close> of bishop, rook and queen.\<close>

fun move_ray ::
  "nat \<Rightarrow> Board \<Rightarrow> string \<Rightarrow> int \<Rightarrow> int \<Rightarrow> int \<Rightarrow> int \<Rightarrow> int \<Rightarrow> int \<Rightarrow> Move list
     \<Rightarrow> error + Move list" where
  "move_ray 0 board color r c rr cc dr dc moves =
     (if in_bounds rr cc then Inl OutOfFuel else Inr moves)"
| "move_ray (Suc n) board color r c rr cc dr dc moves =
     (if in_bounds rr cc then
        (case board_get board rr cc of
           Inl e \<Rightarrow> Inl e
         | Inr q \<Rightarrow>
             (case q of
                None \<Rightarrow>
                  move_ray n board color r c (rr + dr) (cc + dc) dr dc (add_move r c rr cc moves)
              | Some d \<Rightarrow>
                  if pcolor d \<noteq> color then Inr (add_move r c rr cc moves) else Inr moves))
      else Inr moves)"

definition move_rays ::
  "(int \<times> int) list \<Rightarrow> Board \<Rightarrow> string \<Rightarrow> int \<Rightarrow> int \<Rightarrow> Move list \<Rightarrow> error + Move list" where
  "move_rays directions board color r c moves =
     for_each directions
       (\<lambda>(dr, dc) ms. move_ray ray_fuel board color r c (r + dr) (c + dc) dr dc ms) moves"

definition move_step :: "Board \<Rightarrow> string \<Rightarrow> Square \<Rightarrow> Move list \<Rightarrow> error + Move list" where
  "move_step board color sq moves =
     (case sq of (r, c) \<Rightarrow>
        ebind (board_get board r c) (\<lambda>p.
          case p of
            None \<Rightarrow> Inr moves
          | Some d \<Rightarrow>
              if pcolor d \<noteq> color then Inr moves
              else
                let t = ptype d in
                if t = ''P'' then
                  ebind (pawn_forward board color r c moves)
                    (for_each [-1, 1] (pawn_capture board color r c))
                else if t = ''N'' then for_each knight_offsets (step_move board color r c) moves
                else if t \<in> set [''B'', ''R'', ''Q''] then
                  (let directions =
                         (if t \<in> set [''B'', ''Q''] then bishop_dirs else [])
                         @ (if t \<in> set [''R'', ''Q''] then rook_dirs else [])
                   in move_rays directions board color r c moves)
                else if t = ''K'' then for_each king_offsets (step_move board color r c) moves
                else Inr moves))"

definition generate_pseudo_legal_moves :: "Board \<Rightarrow> string \<Rightarrow> error + Move list" where
  "generate_pseudo_legal_moves board color =
     for_each all_squares (move_step board color) []"

definition make_move :: "Board \<Rightarrow> Move \<Rightarrow> error + Board" where
  "make_move board move =
     (case move of ((r1, c1), (r2, c2)) \<Rightarrow>
        ebind (deep_copy_board board) (\<lambda>new_board.
        ebind (board_get new_board r1 c1) (\<lambda>piece.
        ebind (board_set new_board r1 c1 None) (\<lambda>new_board.
          case piece of
            None \<Rightarrow> board_set new_board r2 c2 piece
          | Some d \<Rightarrow>
              if ptype d = ''P'' then
                (let final_row = (if pcolor d = ''w'' then 0 else 7)
                 in if r2 = final_row then
                      board_set new_board r2 c2 (Some \<lparr>ptype = ''Q'', pcolor = pcolor d\<rparr>)
                    else board_set new_board r2 c2 piece)
              else board_set new_board r2 c2 piece))))"

text \<open>The loop of \<^verbatim>\<open>generate_legal_moves\<close>: simulate the move, keep it when the mover is not
  in check afterwards.\<close>

definition legal_step :: "Board \<Rightarrow> string \<Rightarrow> Move \<Rightarrow> Move list \<Rightarrow> error + Move list" where
  "legal_step board color m legal =
     ebind (make_move board m) (\<lambda>nb.
     ebind (is_in_check nb color) (\<lambda>chk.
       if \<not> chk then Inr (legal @ [m]) else Inr legal))"

definition generate_legal_moves :: "Board \<Rightarrow> string \<Rightarrow> error + Move list" where
  "generate_legal_moves board color =
     ebind (generate_pseudo_legal_moves board color) (\<lambda>pseudo.
       for_each pseudo (legal_step board color) [])"

section \<open>The automated opponent\<close>

text \<open>
  \<^verbatim>\<open>random.choice(pool)\<close> returns \<^verbatim>\<open>pool[randbelow(len(pool))]\<close>. The random source is
  the explicit argument \<open>seed\<close>; the index drawn is \<open>seed mod length pool\<close>, so that every
  index of the pool is drawn by some seed and none outside it by any. On an empty list the
  source raises \<^verbatim>\<open>IndexError\<close>.
\<close>

definition random_choice :: "nat \<Rightarrow> 'a list \<Rightarrow> error + 'a" where
  "random_choice seed pool =
     (if pool = [] then Inl IndexError else Inr (pool ! (seed mod length pool)))"

definition capture_step :: "Board \<Rightarrow> Move \<Rightarrow> Move list \<Rightarrow> error + Move list" where
  "capture_step board m capture_moves =
     (case m of ((r1, c1), (r2, c2)) \<Rightarrow>
        ebind (board_get board r2 c2) (\<lambda>q.
          if q \<noteq> None then Inr (capture_moves @ [m]) else Inr capture_moves))"

definition ai_choose_move :: "nat \<Rightarrow> Board \<Rightarrow> error + Move option" where
  "ai_choose_move seed board =
     (let color = ''b'' in
      ebind (generate_legal_moves board color) (\<lambda>moves.
        if moves = [] then Inr None
        else
          ebind (for_each moves (capture_step board) []) (\<lambda>capture_moves.
            let pool = (if capture_moves \<noteq> [] then capture_moves else moves)
            in ebind (random_choice seed pool) (\<lambda>m. Inr (Some m)))))"

section \<open>The move executor on an explicit store\<close>

text \<open>
  In the source a board is a list object that refers to eight row objects, which refer to
  piece dictionaries; \<^verbatim>\<open>deep_copy_board\<close> allocates new objects and \<^verbatim>\<open>make_move\<close> assigns
  into the copy. To speak about what these functions leave untouched, they are modelled a
  second time on a store: a list of objects, an address being an index into it, allocation
  appending to it. A value is \<^verbatim>\<open>None\<close> or a reference; an object is a piece dictionary with
  the keys \<^verbatim>\<open>'type'\<close> and \<^verbatim>\<open>'color'\<close>, or a list of values. The model above takes boards
  as values, which is right as long as no two rows of a board are one object; the last
  section shows that the two models of \<^verbatim>\<open>make_move\<close> return the same board.
\<close>

type_synonym addr = nat

datatype val = VNone | VRef addr

datatype obj = ODict string string | OList "val list"

type_synonym heap = "obj list"

text \<open>A statement sequence that runs on the store: it returns the store it leaves, with
  a value or with the exception raised.\<close>

type_synonym 'a prog = "heap \<Rightarrow> (error + 'a) \<times> heap"

definition hreturn :: "'a \<Rightarrow> 'a prog" where
  "hreturn x = (\<lambda>h. (Inr x, h))"

definition hbind :: "'a prog \<Rightarrow> ('a \<Rightarrow> 'b prog) \<Rightarrow> 'b prog" where
  "hbind m f = (\<lambda>h. case m h of (Inl e, h') \<Rightarrow> (Inl e, h') | (Inr x, h') \<Rightarrow> f x h')"

fun hfor_each :: "'a list \<Rightarrow> ('a \<Rightarrow> 's \<Rightarrow> 's prog) \<Rightarrow> 's \<Rightarrow> 's prog" where
  "hfor_each [] body s = hreturn s"
| "hfor_each (x # xs) body s = hbind (body x s) (hfor_each xs body)"

text \<open>The list a value refers to, for \<^verbatim>\<open>v[i]\<close> with an integer \<^verbatim>\<open>i\<close>: \<^verbatim>\<open>None\<close> is not
  subscriptable, a dictionary has no integer key.\<close>

definition h_list :: "heap \<Rightarrow> val \<Rightarrow> error + val list" where
  "h_list h v =
     (case v of
        VNone \<Rightarrow> Inl TypeError
      | VRef a \<Rightarrow>
          if a < length h then
            (case h ! a of OList xs \<Rightarrow> Inr xs | ODict t c \<Rightarrow> Inl KeyError)
          else Inl BadAddress)"

text \<open>\<^verbatim>\<open>v[i]\<close>, a read.\<close>

definition h_load :: "val \<Rightarrow> int \<Rightarrow> val prog" where
  "h_load v i = (\<lambda>h. (ebind (h_list h v) (\<lambda>xs. py_get xs i), h))"

text \<open>\<^verbatim>\<open>v[i] = x\<close>: the list object that \<^verbatim>\<open>v\<close> refers to is replaced in the store.\<close>

definition h_store :: "val \<Rightarrow> int \<Rightarrow> val \<Rightarrow> unit prog" where
  "h_store v i x =
     (\<lambda>h. case ebind (h_list h v) (\<lambda>xs. py_set xs i x) of
             Inl e \<Rightarrow> (Inl e, h)
           | Inr xs' \<Rightarrow>
               (case v of VNone \<Rightarrow> (Inl TypeError, h) | VRef a \<Rightarrow> (Inr (), h[a := OList xs'])))"

text \<open>\<^verbatim>\<open>p[k]\<close> with a string \<^verbatim>\<open>k\<close>, a read.\<close>

definition h_key :: "val \<Rightarrow> string \<Rightarrow> string prog" where
  "h_key p k =
     (\<lambda>h. (case p of
              VNone \<Rightarrow> Inl TypeError
            | VRef a \<Rightarrow>
                if a < length h then
                  (case h ! a of
                     ODict t c \<Rightarrow>
                       if k = ''type'' then Inr t else if k = ''color'' then Inr c
                       else Inl KeyError
                   | OList xs \<Rightarrow> Inl TypeError)
                else Inl BadAddress, h))"

text \<open>The truth value of \<^verbatim>\<open>p\<close> in \<^verbatim>\<open>if p and ...\<close>: \<^verbatim>\<open>None\<close> and the empty list are
  false, a piece dictionary is not empty.\<close>

definition h_truthy :: "val \<Rightarrow> bool prog" where
  "h_truthy p =
     (\<lambda>h. (case p of
              VNone \<Rightarrow> Inr False
            | VRef a \<Rightarrow>
                if a < length h then
                  (case h ! a of ODict t c \<Rightarrow> Inr True | OList xs \<Rightarrow> Inr (xs \<noteq> []))
                else Inl BadAddress, h))"

text \<open>A list display or a dictionary display: a new object.\<close>

definition h_new :: "obj \<Rightarrow> val prog" where
  "h_new ob = (\<lambda>h. (Inr (VRef (length h)), h @ [ob]))"

text \<open>\<^verbatim>\<open>board[r][c]\<close> and \<^verbatim>\<open>board[r][c] = x\<close>.\<close>

definition h_load2 :: "val \<Rightarrow> int \<Rightarrow> int \<Rightarrow> val prog" where
  "h_load2 board r c = hbind (h_load board r) (\<lambda>row. h_load row c)"

definition h_store2 :: "val \<Rightarrow> int \<Rightarrow> int \<Rightarrow> val \<Rightarrow> unit prog" where
  "h_store2 board r c x = hbind (h_load board r) (\<lambda>row. h_store row c x)"

text \<open>\<^verbatim>\<open>[[None for _ in range(COLS)] for _ in range(ROWS)]\<close>: eight new rows, then the
  list of them.\<close>

definition h_empty_board :: "val prog" where
  "h_empty_board =
     hbind (hfor_each (py_range ROWS)
              (\<lambda>_ rows. hbind (h_new (OList (map (\<lambda>_. VNone) (py_range COLS))))
                           (\<lambda>row. hreturn (rows @ [row])))
              [])
       (\<lambda>rows. h_new (OList rows))"

text \<open>The body of the loops of \<^verbatim>\<open>deep_copy_board\<close>; the right-hand side of the assignment
  is evaluated before its target.\<close>

definition h_copy_cell :: "val \<Rightarrow> val \<Rightarrow> Square \<Rightarrow> unit \<Rightarrow> unit prog" where
  "h_copy_cell board new_board sq u =
     (case sq of (r, c) \<Rightarrow>
        hbind (h_load2 board r c) (\<lambda>p.
          case p of
            VNone \<Rightarrow> h_store2 new_board r c VNone
          | VRef a \<Rightarrow>
              hbind (h_key p ''type'') (\<lambda>t.
              hbind (h_key p ''color'') (\<lambda>cl.
              hbind (h_new (ODict t cl)) (\<lambda>d.
              h_store2 new_board r c d)))))"

definition h_deep_copy_board :: "val \<Rightarrow> val prog" where
  "h_deep_copy_board board =
     hbind h_empty_board (\<lambda>new_board.
     hbind (hfor_each all_squares (h_copy_cell board new_board) ()) (\<lambda>_.
     hreturn new_board))"

definition h_make_move :: "val \<Rightarrow> Move \<Rightarrow> val prog" where
  "h_make_move board move =
     (case move of ((r1, c1), (r2, c2)) \<Rightarrow>
        hbind (h_deep_copy_board board) (\<lambda>new_board.
        hbind (h_load2 new_board r1 c1) (\<lambda>piece.
        hbind (h_store2 new_board r1 c1 VNone) (\<lambda>_.
        hbind (h_truthy piece) (\<lambda>truthy.
        hbind (if truthy then hbind (h_key piece ''type'') (\<lambda>t. hreturn (t = ''P''))
               else hreturn False) (\<lambda>is_pawn.
        hbind (if is_pawn then
                 hbind (h_key piece ''color'') (\<lambda>cl.
                   hreturn (r2 = (if cl = ''w'' then 0 else 7)))
               else hreturn False) (\<lambda>promotes.
          if promotes then
            hbind (h_key piece ''color'') (\<lambda>cl.
            hbind (h_new (ODict ''Q'' cl)) (\<lambda>queen.
            hbind (h_store2 new_board r2 c2 queen) (\<lambda>_.
            hreturn new_board)))
          else
            hbind (h_store2 new_board r2 c2 piece) (\<lambda>_.
            hreturn new_board))))))))"

text \<open>The piece a square of a board in the store shows, as the pure model has it.\<close>

definition h_square :: "heap \<Rightarrow> val \<Rightarrow> int \<Rightarrow> int \<Rightarrow> error + Piece option" where
  "h_square h board r c =
     ebind (fst (h_load2 board r c h)) (\<lambda>p.
       case p of
         VNone \<Rightarrow> Inr None
       | VRef a \<Rightarrow>
           ebind (fst (h_key p ''type'' h)) (\<lambda>t.
           ebind (fst (h_key p ''color'' h)) (\<lambda>cl.
           Inr (Some \<lparr>ptype = t, pcolor = cl\<rparr>))))"

text \<open>The addresses reachable from a value: what it refers to, and what the elements of a
  list object reach.\<close>

inductive reach :: "heap \<Rightarrow> val \<Rightarrow> addr \<Rightarrow> bool" where
  reach_self: "reach h (VRef a) a"
| reach_elem: "a < length h \<Longrightarrow> h ! a = OList xs \<Longrightarrow> x \<in> set xs \<Longrightarrow> reach h x b
     \<Longrightarrow> reach h (VRef a) b"


section \<open>Well-formed boards\<close>

definition wf_board :: "Board \<Rightarrow> bool" where
  "wf_board board \<longleftrightarrow> length board = nat ROWS \<and> list_all (\<lambda>row. length row = nat COLS) board"

definition cell :: "Board \<Rightarrow> int \<Rightarrow> int \<Rightarrow> Piece option" where
  "cell board r c = board ! nat r ! nat c"

definition set_cell :: "Board \<Rightarrow> int \<Rightarrow> int \<Rightarrow> Piece option \<Rightarrow> Board" where
  "set_cell board r c v = board[nat r := (board ! nat r)[nat c := v]]"

text \<open>What \<^verbatim>\<open>make_move\<close> writes on the destination square: the piece taken from the source
  square, or a queen of its colour for a pawn that reaches its last row.\<close>

definition landing :: "Piece option \<Rightarrow> int \<Rightarrow> Piece option" where
  "landing piece r2 =
     (case piece of
        None \<Rightarrow> None
      | Some d \<Rightarrow>
          if ptype d = ''P'' \<and> r2 = (if pcolor d = ''w'' then 0 else 7)
          then Some \<lparr>ptype = ''Q'', pcolor = pcolor d\<rparr> else Some d)"

text \<open>The number of pieces on a board.\<close>

definition piece_count :: "Board \<Rightarrow> nat" where
  "piece_count board = length (filter (\<lambda>q. q \<noteq> None) (concat board))"

text \<open>The directions of the sliding pieces: one step along a row, a column or a
  diagonal.\<close>

definition unit_dir :: "int \<times> int \<Rightarrow> bool" where
  "unit_dir d \<longleftrightarrow> (case d of (dr, dc) \<Rightarrow> \<bar>dr\<bar> \<le> 1 \<and> \<bar>dc\<bar> \<le> 1 \<and> (dr \<noteq> 0 \<or> dc \<noteq> 0))"

text \<open>An upper bound on the squares of the board that a ray still has before it, the
  square \<open>(rr, cc)\<close> included.\<close>

definition margin :: "int \<Rightarrow> int \<Rightarrow> int \<Rightarrow> int \<Rightarrow> int" where
  "margin rr cc dr dc =
     (if dr = 1 then ROWS - rr else if dr = -1 then rr + 1
      else if dc = 1 then COLS - cc else cc + 1)"

text \<open>A move of \<open>color\<close>: from a square of the board with a piece of that colour to a
  square of the board without one.\<close>

definition well_formed_move :: "Board \<Rightarrow> string \<Rightarrow> Move \<Rightarrow> bool" where
  "well_formed_move board color m =
     (case m of ((r1, c1), (r2, c2)) \<Rightarrow>
        in_bounds r1 c1 \<and> in_bounds r2 c2
        \<and> (case cell board r1 c1 of None \<Rightarrow> False | Some d \<Rightarrow> pcolor d = color)
        \<and> (case cell board r2 c2 of None \<Rightarrow> True | Some d \<Rightarrow> pcolor d \<noteq> color))"

text \<open>A king of \<open>color\<close> stands on the square \<open>sq\<close> of the board.\<close>

definition king_at :: "Board \<Rightarrow> string \<Rightarrow> Square \<Rightarrow> bool" where
  "king_at board color sq =
     (case sq of (r, c) \<Rightarrow>
        in_bounds r c \<and> board_get board r c = Inr (Some \<lparr>ptype = ''K'', pcolor = color\<rparr>))"

text \<open>The order in which the nested loops over rows and columns reach the squares.\<close>

definition row_major_before :: "Square \<Rightarrow> Square \<Rightarrow> bool" where
  "row_major_before a b =
     (case a of (r, c) \<Rightarrow> case b of (r', c') \<Rightarrow> r < r' \<or> r = r' \<and> c < c')"

text \<open>The destination square of the move is occupied on the board: the test
  \<^verbatim>\<open>board[r2][c2] is not None\<close> of \<^verbatim>\<open>ai_choose_move\<close>.\<close>

definition occupied_target :: "Board \<Rightarrow> Move \<Rightarrow> bool" where
  "occupied_target board m =
     (case m of ((r1, c1), (r2, c2)) \<Rightarrow>
        (case board_get board r2 c2 of Inr (Some d) \<Rightarrow> True | _ \<Rightarrow> False))"

section \<open>Example positions\<close>

text \<open>The standard starting position, as \<^verbatim>\<open>initial_board()\<close> builds it.\<close>

definition start_position :: Board where
  "start_position =
     [[Some \<lparr>ptype = ''R'', pcolor = ''b''\<rparr>, Some \<lparr>ptype = ''N'', pcolor = ''b''\<rparr>,
       Some \<lparr>ptype = ''B'', pcolor = ''b''\<rparr>, Some \<lparr>ptype = ''Q'', pcolor = ''b''\<rparr>,
       Some \<lparr>ptype = ''K'', pcolor = ''b''\<rparr>, Some \<lparr>ptype = ''B'', pcolor = ''b''\<rparr>,
       Some \<lparr>ptype = ''N'', pcolor = ''b''\<rparr>, Some \<lparr>ptype = ''R'', pcolor = ''b''\<rparr>],
      replicate 8 (Some \<lparr>ptype = ''P'', pcolor = ''b''\<rparr>),
      replicate 8 None, replicate 8 None, replicate 8 None, replicate 8 None,
      replicate 8 (Some \<lparr>ptype = ''P'', pcolor = ''w''\<rparr>),
      [Some \<lparr>ptype = ''R'', pcolor = ''w''\<rparr>, Some \<lparr>ptype = ''N'', pcolor = ''w''\<rparr>,
       Some \<lparr>ptype = ''B'', pcolor = ''w''\<rparr>, Some \<lparr>ptype = ''Q'', pcolor = ''w''\<rparr>,
       Some \<lparr>ptype = ''K'', pcolor = ''w''\<rparr>, Some \<lparr>ptype = ''B'', pcolor = ''w''\<rparr>,
       Some \<lparr>ptype = ''N'', pcolor = ''w''\<rparr>, Some \<lparr>ptype = ''R'', pcolor = ''w''\<rparr>]]"

text \<open>A white pawn one step from promotion, with a black rook it can capture while
  promoting, and both kings.\<close>

definition promotion_position :: Board where
  "promotion_position =
     [[None, Some \<lparr>ptype = ''R'', pcolor = ''b''\<rparr>, None, None, None, None, None,
       Some \<lparr>ptype = ''K'', pcolor = ''b''\<rparr>],
      [Some \<lparr>ptype = ''P'', pcolor = ''w''\<rparr>, None, None, None, None, None, None, None],
      replicate 8 None, replicate 8 None, replicate 8 None, replicate 8 None, replicate 8 None,
      [None, None, None, None, Some \<lparr>ptype = ''K'', pcolor = ''w''\<rparr>, None, None, None]]"

text \<open>A white bishop pinned to its king by a black rook on the same column; the rook can
  capture the bishop.\<close>

definition pin_position :: Board where
  "pin_position =
     [[Some \<lparr>ptype = ''K'', pcolor = ''b''\<rparr>, None, None, None,
       Some \<lparr>ptype = ''R'', pcolor = ''b''\<rparr>, None, None, None],
      replicate 8 None, replicate 8 None, replicate 8 None, replicate 8 None, replicate 8 None,
      [None, None, None, None, Some \<lparr>ptype = ''B'', pcolor = ''w''\<rparr>, None, None, None],
      [None, None, None, None, Some \<lparr>ptype = ''K'', pcolor = ''w''\<rparr>, None, None, None]]"

text \<open>The same position without the bishop: the white king is in check.\<close>

definition check_position :: Board where
  "check_position =
     [[Some \<lparr>ptype = ''K'', pcolor = ''b''\<rparr>, None, None, None,
       Some \<lparr>ptype = ''R'', pcolor = ''b''\<rparr>, None, None, None],
      replicate 8 None, replicate 8 None, replicate 8 None, replicate 8 None, replicate 8 None,
      replicate 8 None,
      [None, None, None, None, Some \<lparr>ptype = ''K'', pcolor = ''w''\<rparr>, None, None, None]]"

text \<open>\<open>pin_position\<close> in a store: four piece dictionaries, the rows, of which the five
  empty ones are one and the same list object, and at address 8 the list of the rows.\<close>

definition pin_heap :: heap where
  "pin_heap =
     [ODict ''K'' ''b'', ODict ''R'' ''b'', ODict ''B'' ''w'', ODict ''K'' ''w'',
      OList [VRef 0, VNone, VNone, VNone, VRef 1, VNone, VNone, VNone],
      OList (replicate 8 VNone),
      OList [VNone, VNone, VNone, VNone, VRef 2, VNone, VNone, VNone],
      OList [VNone, VNone, VNone, VNone, VRef 3, VNone, VNone, VNone],
      OList [VRef 4, VRef 5, VRef 5, VRef 5, VRef 5, VRef 5, VRef 6, VRef 7]]"


section \<open>Invariants of the store\<close>

text \<open>
  Addresses from \<open>n\<close> on are new with respect to a store of \<open>n\<close> objects. A value is new
  when it is \<^verbatim>\<open>None\<close> or refers to a new address, an object when all values it holds are
  new; \<open>zone_closed\<close> says that every new object of the store is new in this sense, so
  that no reference leads from the new objects back to the old ones. \<open>keeps\<close> says that
  the old objects are all there, unchanged. A statement sequence satisfies \<open>hoare old m Q\<close>
  when it maintains both, started from any store that extends \<open>old\<close> in this way, and
  its value, if it returns one, satisfies \<open>Q\<close>.
\<close>

definition fresh_val :: "nat \<Rightarrow> val \<Rightarrow> bool" where
  "fresh_val n v = (case v of VNone \<Rightarrow> True | VRef a \<Rightarrow> n \<le> a)"

definition fresh_obj :: "nat \<Rightarrow> obj \<Rightarrow> bool" where
  "fresh_obj n ob = (case ob of ODict t c \<Rightarrow> True | OList xs \<Rightarrow> list_all (fresh_val n) xs)"

definition zone_closed :: "nat \<Rightarrow> heap \<Rightarrow> bool" where
  "zone_closed n h \<longleftrightarrow> list_all (fresh_obj n) (drop n h)"

definition keeps :: "heap \<Rightarrow> heap \<Rightarrow> bool" where
  "keeps old h \<longleftrightarrow> length old \<le> length h \<and> take (length old) h = old"

definition hinv :: "heap \<Rightarrow> heap \<Rightarrow> bool" where
  "hinv old h \<longleftrightarrow> keeps old h \<and> zone_closed (length old) h"

definition hoare :: "heap \<Rightarrow> 'a prog \<Rightarrow> ('a \<Rightarrow> bool) \<Rightarrow> bool" where
  "hoare old m Q \<longleftrightarrow>
     (\<forall>h res h'. hinv old h \<longrightarrow> m h = (res, h') \<longrightarrow>
        hinv old h' \<and> (case res of Inl e \<Rightarrow> True | Inr x \<Rightarrow> Q x))"

text \<open>
  The board that the new objects hold. \<open>piece_of\<close> reads a cell as the pure model has
  it; a cell of the copy is \<^verbatim>\<open>None\<close> or refers to a new piece dictionary (\<open>dict_val\<close>); a row
  of the copy is a new list of such cells (\<open>own_row\<close>); the copy is a new list of
  distinct rows of this kind (\<open>own_board\<close>). \<open>h_shows h v b\<close> says that the board value
  \<open>v\<close> reads in the store \<open>h\<close>, square by square, as the board \<open>b\<close> reads in the pure
  model.
\<close>

definition piece_of :: "heap \<Rightarrow> val \<Rightarrow> Piece option" where
  "piece_of h x =
     (case x of
        VNone \<Rightarrow> None
      | VRef d \<Rightarrow> (case h ! d of ODict t c \<Rightarrow> Some \<lparr>ptype = t, pcolor = c\<rparr> | OList xs \<Rightarrow> None))"

definition dict_val :: "nat \<Rightarrow> heap \<Rightarrow> val \<Rightarrow> bool" where
  "dict_val n h x =
     (case x of
        VNone \<Rightarrow> True
      | VRef d \<Rightarrow> n \<le> d \<and> d < length h \<and> (case h ! d of ODict t c \<Rightarrow> True | OList xs \<Rightarrow> False))"

definition own_row :: "nat \<Rightarrow> heap \<Rightarrow> addr \<Rightarrow> Piece option list \<Rightarrow> bool" where
  "own_row n h a row \<longleftrightarrow>
     n \<le> a \<and> a < length h \<and>
     (case h ! a of
        ODict t c \<Rightarrow> False
      | OList cells \<Rightarrow> list_all (dict_val n h) cells \<and> row = map (piece_of h) cells)"

definition own_board :: "nat \<Rightarrow> heap \<Rightarrow> val \<Rightarrow> Board \<Rightarrow> bool" where
  "own_board n h v b \<longleftrightarrow>
     (case v of
        VNone \<Rightarrow> False
      | VRef nb \<Rightarrow>
          n \<le> nb \<and> nb < length h \<and>
          (case h ! nb of
             ODict t c \<Rightarrow> False
           | OList rs \<Rightarrow>
               (\<exists>rows. rs = map VRef rows \<and> distinct rows \<and> nb \<notin> set rows \<and>
                  list_all2 (own_row n h) rows b)))"

definition h_shows :: "heap \<Rightarrow> val \<Rightarrow> Board \<Rightarrow> bool" where
  "h_shows h v b \<longleftrightarrow> list_all (\<lambda>(r, c). h_square h v r c = board_get b r c) all_squares"


section \<open>Reading and writing squares of a well-formed board\<close>

lemma wf_board_row: "wf_board b \<Longrightarrow> 0 \<le> r \<Longrightarrow> r < 8 \<Longrightarrow> length (b ! nat r) = 8"
  by (simp add: wf_board_def ROWS_def COLS_def list_all_length)

lemma wf_board_len: "wf_board b \<Longrightarrow> length b = 8"
  by (simp add: wf_board_def ROWS_def)

lemma in_boundsD: "in_bounds r c \<Longrightarrow> 0 \<le> r \<and> r < 8 \<and> 0 \<le> c \<and> c < 8"
  by (simp add: in_bounds_def ROWS_def COLS_def)

lemma board_get_wf:
  "wf_board b \<Longrightarrow> in_bounds r c \<Longrightarrow> board_get b r c = Inr (cell b r c)"
  using wf_board_row[of b r] wf_board_len[of b] in_boundsD[of r c]
  by (simp add: board_get_def py_get_def py_index_def ebind_def cell_def Let_def)

lemma board_set_wf:
  "wf_board b \<Longrightarrow> in_bounds r c \<Longrightarrow> board_set b r c v = Inr (set_cell b r c v)"
  using wf_board_row[of b r] wf_board_len[of b] in_boundsD[of r c]
  by (simp add: board_set_def py_get_def py_set_def py_index_def ebind_def set_cell_def Let_def)

lemma wf_set_cell: "wf_board b \<Longrightarrow> wf_board (set_cell b r c v)"
proof -
  assume wf: "wf_board b"
  have "length (b[nat r := (b ! nat r)[nat c := v]] ! n) = nat COLS" if "n < nat ROWS" for n
  proof (cases "n = nat r")
    case True
    then show ?thesis using wf that by (simp add: wf_board_def list_all_length)
  next
    case False
    then show ?thesis using wf that by (simp add: wf_board_def list_all_length)
  qed
  then show ?thesis using wf by (simp add: wf_board_def set_cell_def list_all_length)
qed

lemma cell_set_cell:
  "wf_board b \<Longrightarrow> in_bounds r c \<Longrightarrow> in_bounds r' c' \<Longrightarrow>
   cell (set_cell b r c v) r' c' = (if r' = r \<and> c' = c then v else cell b r' c')"
  using wf_board_row[of b r] wf_board_len[of b] in_boundsD[of r c] in_boundsD[of r' c']
  by (auto simp add: cell_def set_cell_def nth_list_update)

lemma board_ext:
  assumes "wf_board a" "wf_board b" "\<And>r c. in_bounds r c \<Longrightarrow> cell a r c = cell b r c"
  shows "a = b"
proof (rule nth_equalityI)
  show "length a = length b" using assms by (simp add: wf_board_def)
next
  fix i assume i: "i < length a"
  then have i8: "i < 8" using assms(1) by (simp add: wf_board_def ROWS_def)
  show "a ! i = b ! i"
  proof (rule nth_equalityI)
    show "length (a ! i) = length (b ! i)"
      using assms(1,2) i8 by (simp add: wf_board_def ROWS_def list_all_length)
  next
    fix j assume "j < length (a ! i)"
    then have j8: "j < 8" using assms(1) i8 by (simp add: wf_board_def ROWS_def COLS_def list_all_length)
    have "in_bounds (int i) (int j)" using i8 j8 by (simp add: in_bounds_def ROWS_def COLS_def)
    from assms(3)[OF this] show "a ! i ! j = b ! i ! j" by (simp add: cell_def)
  qed
qed

lemma set_all_squares: "set all_squares = {(r, c). in_bounds r c}"
  by (auto simp add: all_squares_def py_range_def in_bounds_def ROWS_def COLS_def image_iff)

lemma wf_empty_board: "wf_board empty_board"
  by (simp add: wf_board_def empty_board_def list_all_length)

lemma piece_rebuild: "\<lparr>ptype = ptype d, pcolor = pcolor d\<rparr> = d"
  by simp

lemma copy_cell_wf:
  "wf_board b \<Longrightarrow> wf_board nb \<Longrightarrow> in_bounds r c \<Longrightarrow>
   copy_cell b (r, c) nb = Inr (set_cell nb r c (cell b r c))"
  by (cases "cell b r c") (simp_all add: copy_cell_def board_get_wf board_set_wf ebind_def piece_rebuild)

lemma copy_loop:
  "wf_board b \<Longrightarrow> wf_board nb \<Longrightarrow> list_all (\<lambda>sq. in_bounds (fst sq) (snd sq)) sqs \<Longrightarrow>
   \<exists>nb'. for_each sqs (copy_cell b) nb = Inr nb' \<and> wf_board nb' \<and>
     (\<forall>r c. in_bounds r c \<longrightarrow>
        cell nb' r c = (if (r, c) \<in> set sqs then cell b r c else cell nb r c))"
proof (induction sqs arbitrary: nb)
  case Nil
  then show ?case by simp
next
  case (Cons sq sqs)
  obtain r c where sq: "sq = (r, c)" by (cases sq)
  from Cons.prems have ib: "in_bounds r c" and rest: "list_all (\<lambda>sq. in_bounds (fst sq) (snd sq)) sqs"
    by (simp_all add: sq)
  let ?nb1 = "set_cell nb r c (cell b r c)"
  have step: "copy_cell b sq nb = Inr ?nb1"
    using Cons.prems ib by (simp add: sq copy_cell_wf)
  have wf1: "wf_board ?nb1" using Cons.prems by (simp add: wf_set_cell)
  from Cons.IH[OF Cons.prems(1) wf1 rest] obtain nb' where
    nb': "for_each sqs (copy_cell b) ?nb1 = Inr nb'" "wf_board nb'"
      "\<forall>r' c'. in_bounds r' c' \<longrightarrow>
        cell nb' r' c' = (if (r', c') \<in> set sqs then cell b r' c' else cell ?nb1 r' c')"
    by blast
  show ?case
    using nb' step Cons.prems(2) ib by (auto simp add: sq cell_set_cell)
qed

lemma deep_copy_board_wf: "wf_board b \<Longrightarrow> deep_copy_board b = Inr b"
proof -
  assume wf: "wf_board b"
  have "list_all (\<lambda>sq. in_bounds (fst sq) (snd sq)) all_squares"
    using set_all_squares by (auto simp add: list_all_iff)
  from copy_loop[OF wf wf_empty_board this] obtain nb' where
    nb': "for_each all_squares (copy_cell b) empty_board = Inr nb'" "wf_board nb'"
      "\<forall>r c. in_bounds r c \<longrightarrow>
        cell nb' r c = (if (r, c) \<in> set all_squares then cell b r c else cell empty_board r c)"
    by blast
  have "nb' = b"
    by (rule board_ext[OF nb'(2) wf]) (use nb'(3) set_all_squares in auto)
  then show ?thesis using nb'(1) by (simp add: deep_copy_board_def)
qed

section \<open>The move executor on a well-formed board\<close>

lemma make_move_wf:
  assumes "wf_board b" "in_bounds r1 c1" "in_bounds r2 c2"
  shows "make_move b ((r1, c1), (r2, c2)) =
           Inr (set_cell (set_cell b r1 c1 None) r2 c2 (landing (cell b r1 c1) r2))"
proof -
  have wf1: "wf_board (set_cell b r1 c1 None)" using assms(1) by (rule wf_set_cell)
  have get1: "board_get b r1 c1 = Inr (cell b r1 c1)"
    using assms by (simp add: board_get_wf)
  have set1: "board_set b r1 c1 None = Inr (set_cell b r1 c1 None)"
    using assms by (simp add: board_set_wf)
  have set2: "board_set (set_cell b r1 c1 None) r c2 v
                = Inr (set_cell (set_cell b r1 c1 None) r c2 v)" if "r2 = r" for r v
    using wf1 assms(3) that by (simp add: board_set_wf)
  show ?thesis
    unfolding make_move_def
    by (cases "cell b r1 c1")
       (simp_all add: deep_copy_board_wf[OF assms(1)] get1 set1 set2 ebind_def landing_def
          Let_def)
qed

lemma wf_make_move:
  "wf_board b \<Longrightarrow> in_bounds r1 c1 \<Longrightarrow> in_bounds r2 c2 \<Longrightarrow>
   make_move b ((r1, c1), (r2, c2)) = Inr nb \<Longrightarrow> wf_board nb"
  by (auto simp add: make_move_wf wf_set_cell)

lemma cell_make_move:
  assumes "wf_board b" "in_bounds r1 c1" "in_bounds r2 c2" "in_bounds r c"
    and "make_move b ((r1, c1), (r2, c2)) = Inr nb"
  shows "cell nb r c =
           (if r = r2 \<and> c = c2 then landing (cell b r1 c1) r2
            else if r = r1 \<and> c = c1 then None else cell b r c)"
  using assms by (auto simp add: make_move_wf cell_set_cell wf_set_cell)

text \<open>Counting along rows.\<close>

lemma count_list_update:
  "i < length xs \<Longrightarrow>
   length (filter P (xs[i := v])) + (if P (xs ! i) then 1 else 0)
     = length (filter P xs) + (if P v then 1 else 0)"
proof (induction xs arbitrary: i)
  case Nil
  then show ?case by simp
next
  case (Cons x xs)
  then show ?case by (cases i) auto
qed

lemma count_concat_update:
  "i < length b \<Longrightarrow>
   length (filter P (concat (b[i := row]))) + length (filter P (b ! i))
     = length (filter P (concat b)) + length (filter P row)"
proof (induction b arbitrary: i)
  case Nil
  then show ?case by simp
next
  case (Cons x xs)
  then show ?case by (cases i) auto
qed

lemma piece_count_set_cell:
  assumes "wf_board b" "in_bounds r c"
  shows "piece_count (set_cell b r c v) + (if cell b r c \<noteq> None then 1 else 0)
           = piece_count b + (if v \<noteq> None then 1 else 0)"
proof -
  have r: "nat r < length b" and c: "nat c < length (b ! nat r)"
    using assms wf_board_len[of b] wf_board_row[of b r] in_boundsD[of r c] by auto
  from count_concat_update[OF r, of "\<lambda>q. q \<noteq> None" "(b ! nat r)[nat c := v]"]
    count_list_update[OF c, of "\<lambda>q. q \<noteq> None" v]
  show ?thesis
    by (simp add: piece_count_def set_cell_def cell_def)
qed

lemma landing_None: "landing p r = None \<longleftrightarrow> p = None"
  by (simp add: landing_def split: option.split)

lemma piece_count_make_move:
  assumes "wf_board b" "in_bounds r1 c1" "in_bounds r2 c2" "cell b r1 c1 \<noteq> None"
    and "make_move b ((r1, c1), (r2, c2)) = Inr nb"
  shows "piece_count nb + (if cell b r2 c2 \<noteq> None \<and> (r1, c1) \<noteq> (r2, c2) then 1 else 0)
           = piece_count b"
proof -
  let ?b1 = "set_cell b r1 c1 None"
  have wf1: "wf_board ?b1" using assms(1) by (rule wf_set_cell)
  have nb: "nb = set_cell ?b1 r2 c2 (landing (cell b r1 c1) r2)"
    using assms by (simp add: make_move_wf)
  have c1: "piece_count ?b1 + 1 = piece_count b"
    using piece_count_set_cell[OF assms(1,2), of None] assms(4) by simp
  have c2: "piece_count nb + (if cell ?b1 r2 c2 \<noteq> None then 1 else 0) = piece_count ?b1 + 1"
    using piece_count_set_cell[OF wf1 assms(3), of "landing (cell b r1 c1) r2"] assms(4)
    by (simp add: nb landing_None)
  have c3: "cell ?b1 r2 c2 = (if r2 = r1 \<and> c2 = c1 then None else cell b r2 c2)"
    using assms by (simp add: cell_set_cell)
  show ?thesis
  proof (cases "cell b r2 c2 \<noteq> None \<and> (r1, c1) \<noteq> (r2, c2)")
    case True
    then have "cell ?b1 r2 c2 \<noteq> None" using c3 by auto
    with c1 c2 True show ?thesis by simp
  next
    case False
    then have "cell ?b1 r2 c2 = None" using c3 by auto
    with c1 c2 False show ?thesis by simp
  qed
qed

section \<open>The example positions are well formed\<close>

lemma wf_start_position: "wf_board start_position"
  by (simp add: wf_board_def start_position_def ROWS_def COLS_def)

lemma wf_promotion_position: "wf_board promotion_position"
  by (simp add: wf_board_def promotion_position_def ROWS_def COLS_def)

lemma wf_pin_position: "wf_board pin_position"
  by (simp add: wf_board_def pin_position_def ROWS_def COLS_def)

lemma wf_check_position: "wf_board check_position"
  by (simp add: wf_board_def check_position_def ROWS_def COLS_def)

section \<open>Loops and rays\<close>

lemma ebind_Inr: "ebind (Inr x) f = f x"
  by (simp add: ebind_def)

lemma for_each_invariant:
  assumes "I s"
    and "\<And>x s. x \<in> set xs \<Longrightarrow> I s \<Longrightarrow> \<exists>s'. body x s = Inr s' \<and> I s'"
  shows "\<exists>s'. for_each xs body s = Inr s' \<and> I s'"
  using assms
proof (induction xs arbitrary: s)
  case Nil
  then show ?case by simp
next
  case (Cons x xs)
  from Cons.prems(2)[of x s] Cons.prems(1) obtain s1 where s1: "body x s = Inr s1" "I s1"
    by auto
  have "\<exists>s'. for_each xs body s1 = Inr s' \<and> I s'"
    by (rule Cons.IH[OF s1(2)]) (use Cons.prems(2) in auto)
  then show ?case using s1(1) by simp
qed

lemma margin_pos: "unit_dir (dr, dc) \<Longrightarrow> in_bounds rr cc \<Longrightarrow> 1 \<le> margin rr cc dr dc"
  by (auto simp add: unit_dir_def margin_def in_bounds_def ROWS_def COLS_def)

lemma margin_step:
  "unit_dir (dr, dc) \<Longrightarrow> margin (rr + dr) (cc + dc) dr dc = margin rr cc dr dc - 1"
  by (auto simp add: unit_dir_def margin_def)

lemma margin_start:
  "unit_dir (dr, dc) \<Longrightarrow> in_bounds r c \<Longrightarrow> margin (r + dr) (c + dc) dr dc \<le> int ray_fuel"
  by (auto simp add: unit_dir_def margin_def in_bounds_def ROWS_def COLS_def ray_fuel_def)

lemma unit_rook_dirs: "d \<in> set rook_dirs \<Longrightarrow> unit_dir d"
  by (auto simp add: rook_dirs_def unit_dir_def)

lemma unit_bishop_dirs: "d \<in> set bishop_dirs \<Longrightarrow> unit_dir d"
  by (auto simp add: bishop_dirs_def unit_dir_def)

lemma for_each_filter:
  assumes "\<And>x. x \<in> set xs \<Longrightarrow> \<exists>t. test x = Inr t"
  shows "for_each xs (\<lambda>x acc. ebind (test x) (\<lambda>t. if keep t then Inr (acc @ [x]) else Inr acc)) acc
           = Inr (acc @ filter (\<lambda>x. \<exists>t. test x = Inr t \<and> keep t) xs)"
  using assms
proof (induction xs arbitrary: acc)
  case Nil
  then show ?case by simp
next
  case (Cons x xs)
  obtain t where t: "test x = Inr t" using Cons.prems[of x] by auto
  have IH: "for_each xs (\<lambda>x acc. ebind (test x) (\<lambda>t. if keep t then Inr (acc @ [x]) else Inr acc)) acc'
           = Inr (acc' @ filter (\<lambda>x. \<exists>t. test x = Inr t \<and> keep t) xs)" for acc'
    by (rule Cons.IH) (use Cons.prems in auto)
  show ?case by (simp add: t ebind_Inr IH)
qed


section \<open>The pseudo-legal generator returns well-formed moves\<close>

lemma wfm_add_move:
  "list_all (well_formed_move b color) moves \<Longrightarrow> well_formed_move b color ((r, c), (rr, cc)) \<Longrightarrow>
   list_all (well_formed_move b color) (add_move r c rr cc moves)"
  by (simp add: add_move_def)

lemma move_ray_ok:
  assumes wf: "wf_board b" and ud: "unit_dir (dr, dc)"
    and org: "in_bounds r c" "cell b r c = Some d" "pcolor d = color"
  shows "list_all (well_formed_move b color) moves \<Longrightarrow>
         (in_bounds rr cc \<Longrightarrow> margin rr cc dr dc \<le> int n) \<Longrightarrow>
         \<exists>ms. move_ray n b color r c rr cc dr dc moves = Inr ms
              \<and> list_all (well_formed_move b color) ms"
proof (induction n arbitrary: rr cc moves)
  case 0
  have "\<not> in_bounds rr cc"
    using 0(2) margin_pos[OF ud, of rr cc] by auto
  then show ?case using 0(1) by simp
next
  case (Suc n)
  show ?case
  proof (cases "in_bounds rr cc")
    case False
    then show ?thesis using Suc.prems(1) by simp
  next
    case True
    have get: "board_get b rr cc = Inr (cell b rr cc)"
      using wf True by (rule board_get_wf)
    show ?thesis
    proof (cases "cell b rr cc")
      case None
      have m: "well_formed_move b color ((r, c), (rr, cc))"
        using org True None by (simp add: well_formed_move_def)
      have nxt: "in_bounds (rr + dr) (cc + dc) \<Longrightarrow> margin (rr + dr) (cc + dc) dr dc \<le> int n"
        using Suc.prems(2)[OF True] margin_step[OF ud, of rr cc] by simp
      from Suc.IH[OF wfm_add_move[OF Suc.prems(1) m] nxt]
      show ?thesis using True get None by simp
    next
      case (Some q)
      show ?thesis
      proof (cases "pcolor q \<noteq> color")
        case True
        have m: "well_formed_move b color ((r, c), (rr, cc))"
          using org \<open>in_bounds rr cc\<close> Some True by (simp add: well_formed_move_def)
        show ?thesis
          using \<open>in_bounds rr cc\<close> get Some True wfm_add_move[OF Suc.prems(1) m] by simp
      next
        case False
        then show ?thesis using \<open>in_bounds rr cc\<close> get Some Suc.prems(1) by simp
      qed
    qed
  qed
qed

lemma move_rays_ok:
  assumes wf: "wf_board b" and ud: "\<And>d. d \<in> set dirs \<Longrightarrow> unit_dir d"
    and org: "in_bounds r c" "cell b r c = Some d" "pcolor d = color"
    and inv: "list_all (well_formed_move b color) moves"
  shows "\<exists>ms. move_rays dirs b color r c moves = Inr ms
              \<and> list_all (well_formed_move b color) ms"
  unfolding move_rays_def
proof (rule for_each_invariant[where I = "list_all (well_formed_move b color)", OF inv])
  fix x :: "int \<times> int" and s :: "Move list"
  assume x: "x \<in> set dirs" and s: "list_all (well_formed_move b color) s"
  obtain dr dc where xd: "x = (dr, dc)" by (cases x)
  have u: "unit_dir (dr, dc)" using ud[OF x] by (simp add: xd)
  from move_ray_ok[OF wf u org s, of "r + dr" "c + dc" ray_fuel] margin_start[OF u org(1)]
  show "\<exists>s'. (case x of (dr, dc) \<Rightarrow> \<lambda>ms. move_ray ray_fuel b color r c (r + dr) (c + dc) dr dc ms) s
               = Inr s' \<and> list_all (well_formed_move b color) s'"
    by (simp add: xd)
qed

lemma step_move_ok:
  assumes wf: "wf_board b"
    and org: "in_bounds r c" "cell b r c = Some d" "pcolor d = color"
    and inv: "list_all (well_formed_move b color) moves"
  shows "\<exists>ms. step_move b color r c off moves = Inr ms
              \<and> list_all (well_formed_move b color) ms"
proof -
  obtain dr dc where off: "off = (dr, dc)" by (cases off)
  show ?thesis
  proof (cases "in_bounds (r + dr) (c + dc)")
    case False
    then show ?thesis using inv by (simp add: step_move_def off)
  next
    case True
    have get: "board_get b (r + dr) (c + dc) = Inr (cell b (r + dr) (c + dc))"
      using wf True by (rule board_get_wf)
    show ?thesis
    proof (cases "cell b (r + dr) (c + dc)")
      case None
      have m: "well_formed_move b color ((r, c), (r + dr, c + dc))"
        using org True None by (simp add: well_formed_move_def)
      show ?thesis
        using True get None wfm_add_move[OF inv m]
        by (simp add: step_move_def off ebind_def)
    next
      case (Some q)
      show ?thesis
      proof (cases "pcolor q \<noteq> color")
        case True
        have m: "well_formed_move b color ((r, c), (r + dr, c + dc))"
          using org \<open>in_bounds (r + dr) (c + dc)\<close> Some True by (simp add: well_formed_move_def)
        show ?thesis
          using \<open>in_bounds (r + dr) (c + dc)\<close> get Some True wfm_add_move[OF inv m]
          by (simp add: step_move_def off ebind_def)
      next
        case False
        then show ?thesis
          using \<open>in_bounds (r + dr) (c + dc)\<close> get Some inv
          by (simp add: step_move_def off ebind_def)
      qed
    qed
  qed
qed

lemma pawn_capture_ok:
  assumes wf: "wf_board b"
    and org: "in_bounds r c" "cell b r c = Some d" "pcolor d = color"
    and inv: "list_all (well_formed_move b color) moves"
  shows "\<exists>ms. pawn_capture b color r c dc moves = Inr ms
              \<and> list_all (well_formed_move b color) ms"
proof -
  define rr where "rr = r + (if color = ''w'' then -1 else 1)"
  show ?thesis
  proof (cases "in_bounds rr (c + dc)")
    case False
    then show ?thesis using inv by (simp add: pawn_capture_def rr_def Let_def)
  next
    case True
    have get: "board_get b rr (c + dc) = Inr (cell b rr (c + dc))"
      using wf True by (rule board_get_wf)
    show ?thesis
    proof (cases "cell b rr (c + dc)")
      case None
      then show ?thesis
        using True get inv by (simp add: pawn_capture_def rr_def[symmetric] Let_def ebind_def)
    next
      case (Some q)
      show ?thesis
      proof (cases "pcolor q \<noteq> color")
        case True
        have m: "well_formed_move b color ((r, c), (rr, c + dc))"
          using org \<open>in_bounds rr (c + dc)\<close> Some True by (simp add: well_formed_move_def)
        show ?thesis
          using \<open>in_bounds rr (c + dc)\<close> get Some True wfm_add_move[OF inv m]
          by (simp add: pawn_capture_def rr_def[symmetric] Let_def ebind_def)
      next
        case False
        then show ?thesis
          using \<open>in_bounds rr (c + dc)\<close> get Some inv
          by (simp add: pawn_capture_def rr_def[symmetric] Let_def ebind_def)
      qed
    qed
  qed
qed


lemma pawn_forward_ok:
  assumes wf: "wf_board b"
    and org: "in_bounds r c" "cell b r c = Some d" "pcolor d = color"
    and inv: "list_all (well_formed_move b color) moves"
  shows "\<exists>ms. pawn_forward b color r c moves = Inr ms
              \<and> list_all (well_formed_move b color) ms"
proof -
  define fwd :: int where "fwd = (if color = ''w'' then -1 else 1)"
  define start :: int where "start = (if color = ''w'' then 6 else 1)"
  have pf: "pawn_forward b color r c moves =
      (if in_bounds (r + fwd) c then
           ebind (board_get b (r + fwd) c) (\<lambda>q1.
             if q1 = None then
               (if r = start \<and> in_bounds (r + 2 * fwd) c then
                     ebind (board_get b (r + 2 * fwd) c) (\<lambda>q2.
                       if q2 = None then Inr (add_move r c (r + 2 * fwd) c (add_move r c (r + fwd) c moves))
                       else Inr (add_move r c (r + fwd) c moves))
                   else Inr (add_move r c (r + fwd) c moves))
             else Inr moves)
         else Inr moves)"
    by (simp only: pawn_forward_def Let_def fwd_def start_def)
  show ?thesis
  proof (cases "in_bounds (r + fwd) c \<and> cell b (r + fwd) c = None")
    case False
    then show ?thesis
      using inv board_get_wf[OF wf, of "r + fwd" c] by (auto simp add: pf ebind_def)
  next
    case True
    then have ib1: "in_bounds (r + fwd) c" and e1: "cell b (r + fwd) c = None" by auto
    have get1: "board_get b (r + fwd) c = Inr None"
      using board_get_wf[OF wf ib1] e1 by simp
    have m1: "well_formed_move b color ((r, c), (r + fwd, c))"
      using org ib1 e1 by (simp add: well_formed_move_def)
    have inv1: "list_all (well_formed_move b color) (add_move r c (r + fwd) c moves)"
      by (rule wfm_add_move[OF inv m1])
    show ?thesis
    proof (cases "r = start \<and> in_bounds (r + 2 * fwd) c \<and> cell b (r + 2 * fwd) c = None")
      case False
      then show ?thesis
        using inv1 get1 ib1 board_get_wf[OF wf, of "r + 2 * fwd" c]
        by (auto simp add: pf ebind_def)
    next
      case True
      then have ib2: "in_bounds (r + 2 * fwd) c" and e2: "cell b (r + 2 * fwd) c = None"
        and st: "r = start" by auto
      have get2: "board_get b (r + 2 * fwd) c = Inr None"
        using board_get_wf[OF wf ib2] e2 by simp
      have m2: "well_formed_move b color ((r, c), (r + 2 * fwd, c))"
        using org ib2 e2 by (simp add: well_formed_move_def)
      have "list_all (well_formed_move b color)
              (add_move r c (r + 2 * fwd) c (add_move r c (r + fwd) c moves))"
        by (rule wfm_add_move[OF inv1 m2])
      then show ?thesis
        unfolding pf using get1 ib1 get2 ib2 st by (simp add: ebind_def)
    qed
  qed
qed

lemma move_step_ok:
  assumes wf: "wf_board b" and ib: "in_bounds r c"
    and inv: "list_all (well_formed_move b color) moves"
  shows "\<exists>ms. move_step b color (r, c) moves = Inr ms
              \<and> list_all (well_formed_move b color) ms"
proof (cases "cell b r c")
  case None
  then show ?thesis
    using inv board_get_wf[OF wf ib] by (simp add: move_step_def ebind_def)
next
  case (Some d)
  have get: "board_get b r c = Inr (Some d)"
    using board_get_wf[OF wf ib] Some by simp
  show ?thesis
  proof (cases "pcolor d = color")
    case False
    then show ?thesis using inv get by (simp add: move_step_def ebind_def)
  next
    case True
    note org = ib Some True
    have steps: "\<exists>ms. for_each offs (step_move b color r c) moves = Inr ms
                   \<and> list_all (well_formed_move b color) ms" for offs
      by (rule for_each_invariant[where I = "list_all (well_formed_move b color)", OF inv])
         (rule step_move_ok[OF wf org])
    have rays: "\<exists>ms. move_rays dirs b color r c moves = Inr ms
                   \<and> list_all (well_formed_move b color) ms"
      if "\<And>x. x \<in> set dirs \<Longrightarrow> unit_dir x" for dirs
      by (rule move_rays_ok[OF wf that org inv])
    have pawn: "\<exists>ms. ebind (pawn_forward b color r c moves)
                        (for_each [-1, 1] (pawn_capture b color r c)) = Inr ms
                   \<and> list_all (well_formed_move b color) ms"
    proof -
      from pawn_forward_ok[OF wf org inv] obtain m1 where
        m1: "pawn_forward b color r c moves = Inr m1" "list_all (well_formed_move b color) m1"
        by blast
      have "\<exists>ms. for_each [-1, 1] (pawn_capture b color r c) m1 = Inr ms
                   \<and> list_all (well_formed_move b color) ms"
        by (rule for_each_invariant[where I = "list_all (well_formed_move b color)", OF m1(2)])
           (rule pawn_capture_ok[OF wf org])
      then show ?thesis using m1(1) by (simp add: ebind_def)
    qed
    have ms: "move_step b color (r, c) moves =
        (let t = ptype d in
                if t = ''P'' then
                  ebind (pawn_forward b color r c moves)
                    (for_each [-1, 1] (pawn_capture b color r c))
                else if t = ''N'' then for_each knight_offsets (step_move b color r c) moves
                else if t \<in> set [''B'', ''R'', ''Q''] then
                  (let directions =
                         (if t \<in> set [''B'', ''Q''] then bishop_dirs else [])
                         @ (if t \<in> set [''R'', ''Q''] then rook_dirs else [])
                   in move_rays directions b color r c moves)
                else if t = ''K'' then for_each king_offsets (step_move b color r c) moves
                else Inr moves)"
      using get True by (simp add: move_step_def ebind_def)
    have dirs: "unit_dir x"
      if "x \<in> set ((if t \<in> set [''B'', ''Q''] then bishop_dirs else [])
                         @ (if t \<in> set [''R'', ''Q''] then rook_dirs else []))" for x t
      using that by (auto split: if_splits intro: unit_rook_dirs unit_bishop_dirs)
    show ?thesis
      unfolding ms Let_def
      using steps pawn rays[OF dirs] inv by (simp only: split: if_split) blast
  qed
qed

lemma generate_pseudo_legal_moves_ok:
  assumes wf: "wf_board b"
  shows "\<exists>ms. generate_pseudo_legal_moves b color = Inr ms
              \<and> list_all (well_formed_move b color) ms"
  unfolding generate_pseudo_legal_moves_def
proof (rule for_each_invariant[where I = "list_all (well_formed_move b color)"])
  show "list_all (well_formed_move b color) []" by simp
next
  fix x :: Square and s :: "Move list"
  assume x: "x \<in> set all_squares" and s: "list_all (well_formed_move b color) s"
  obtain r c where xd: "x = (r, c)" by (cases x)
  have ib: "in_bounds r c" using x set_all_squares by (auto simp add: xd)
  show "\<exists>s'. move_step b color x s = Inr s' \<and> list_all (well_formed_move b color) s'"
    unfolding xd by (rule move_step_ok[OF wf ib s])
qed

lemma well_formed_move_not_null:
  assumes "wf_board b" "generate_pseudo_legal_moves b color = Inr ms" "m \<in> set ms"
  shows "fst m \<noteq> snd m"
proof -
  from generate_pseudo_legal_moves_ok[OF assms(1), of color] assms(2,3)
  have "well_formed_move b color m" by (auto simp add: list_all_iff)
  then show ?thesis
    by (cases m) (auto simp add: well_formed_move_def split: option.splits)
qed

section \<open>The attack map and the king search return on a well-formed board\<close>

lemma attack_ray_ok:
  assumes wf: "wf_board b" and ud: "unit_dir (dr, dc)"
  shows "(in_bounds rr cc \<Longrightarrow> margin rr cc dr dc \<le> int n) \<Longrightarrow>
         \<exists>att. attack_ray n b rr cc dr dc attacked = Inr att"
proof (induction n arbitrary: rr cc attacked)
  case 0
  have "\<not> in_bounds rr cc"
    using 0 margin_pos[OF ud, of rr cc] by auto
  then show ?case by simp
next
  case (Suc n)
  show ?case
  proof (cases "in_bounds rr cc")
    case False
    then show ?thesis by simp
  next
    case True
    have get: "board_get b rr cc = Inr (cell b rr cc)"
      using wf True by (rule board_get_wf)
    have nxt: "in_bounds (rr + dr) (cc + dc) \<Longrightarrow> margin (rr + dr) (cc + dc) dr dc \<le> int n"
      using Suc.prems[OF True] margin_step[OF ud, of rr cc] by simp
    from Suc.IH[OF nxt, of "insert (rr, cc) attacked"]
    show ?thesis using True get by simp
  qed
qed

lemma attack_rays_ok:
  assumes wf: "wf_board b" and ud: "\<And>d. d \<in> set dirs \<Longrightarrow> unit_dir d" and ib: "in_bounds r c"
  shows "\<exists>att. attack_rays dirs b r c attacked = Inr att"
proof -
  have "\<exists>s'. for_each dirs
         (\<lambda>(dr, dc) att. attack_ray ray_fuel b (r + dr) (c + dc) dr dc att) attacked = Inr s' \<and> True"
  proof (rule for_each_invariant[where I = "\<lambda>_. True"])
    fix x :: "int \<times> int" and s :: "Square set"
    assume x: "x \<in> set dirs"
    obtain dr dc where xd: "x = (dr, dc)" by (cases x)
    have u: "unit_dir (dr, dc)" using ud[OF x] by (simp add: xd)
    from attack_ray_ok[OF wf u, of "r + dr" "c + dc" ray_fuel s] margin_start[OF u ib]
    show "\<exists>s'. (case x of (dr, dc) \<Rightarrow> \<lambda>att. attack_ray ray_fuel b (r + dr) (c + dc) dr dc att) s
               = Inr s' \<and> True"
      by (simp add: xd)
  qed simp
  then show ?thesis by (simp add: attack_rays_def)
qed

lemma attack_step_ok:
  assumes wf: "wf_board b" and ib: "in_bounds r c"
  shows "\<exists>att. attack_step b color (r, c) attacked = Inr att"
proof -
  have get: "board_get b r c = Inr (cell b r c)"
    using wf ib by (rule board_get_wf)
  have dirs: "unit_dir x" if "x \<in> set (rook_dirs @ bishop_dirs)" for x
    using that by (auto intro: unit_rook_dirs unit_bishop_dirs)
  have rr: "\<exists>att. attack_rays rook_dirs b r c attacked = Inr att"
    by (rule attack_rays_ok[OF wf unit_rook_dirs ib])
  have rb: "\<exists>att. attack_rays bishop_dirs b r c attacked = Inr att"
    by (rule attack_rays_ok[OF wf unit_bishop_dirs ib])
  have rq: "\<exists>att. attack_rays (rook_dirs @ bishop_dirs) b r c attacked = Inr att"
    by (rule attack_rays_ok[OF wf dirs ib])
  show ?thesis
    using rr rb rq
    by (simp add: attack_step_def get ebind_def Let_def split: option.split)
qed

lemma squares_attacked_by_ok:
  assumes wf: "wf_board b"
  shows "\<exists>att. squares_attacked_by b color = Inr att"
proof -
  have "\<exists>s'. for_each all_squares (attack_step b color) {} = Inr s' \<and> True"
  proof (rule for_each_invariant[where I = "\<lambda>_. True"])
    fix x :: Square and s :: "Square set"
    assume x: "x \<in> set all_squares"
    obtain r c where xd: "x = (r, c)" by (cases x)
    have ib: "in_bounds r c" using x set_all_squares by (auto simp add: xd)
    from attack_step_ok[OF wf ib, of color s]
    show "\<exists>s'. attack_step b color x s = Inr s' \<and> True" by (simp add: xd)
  qed simp
  then show ?thesis by (simp add: squares_attacked_by_def)
qed


lemma king_iff:
  "(ptype d = ''K'' \<and> pcolor d = color) \<longleftrightarrow> d = \<lparr>ptype = ''K'', pcolor = color\<rparr>"
  by (cases d) auto

lemma find_king_in_ok:
  assumes wf: "wf_board b"
  shows "list_all (\<lambda>sq. in_bounds (fst sq) (snd sq)) sqs \<Longrightarrow>
         find_king_in sqs b color = Inr (find (king_at b color) sqs)"
proof (induction sqs)
  case Nil
  then show ?case by simp
next
  case (Cons sq sqs)
  obtain r c where sq: "sq = (r, c)" by (cases sq)
  have ib: "in_bounds r c" using Cons.prems by (simp add: sq)
  have get: "board_get b r c = Inr (cell b r c)" using wf ib by (rule board_get_wf)
  have IH: "find_king_in sqs b color = Inr (find (king_at b color) sqs)"
    using Cons by simp
  have k: "king_at b color (r, c) \<longleftrightarrow> cell b r c = Some \<lparr>ptype = ''K'', pcolor = color\<rparr>"
    by (simp add: king_at_def ib get)
  show ?case
    by (cases "cell b r c") (simp_all add: sq get IH k king_iff)
qed

lemma find_king_ok:
  "wf_board b \<Longrightarrow> find_king b color = Inr (find (king_at b color) all_squares)"
  unfolding find_king_def
  by (rule find_king_in_ok) (use set_all_squares in \<open>auto simp add: list_all_iff\<close>)

lemma all_squares_sorted: "sorted_wrt row_major_before all_squares"
  by code_simp

lemma find_some_iff_first:
  assumes "sorted_wrt R xs" "\<And>a b. R a b \<Longrightarrow> \<not> R b a" "\<And>a. \<not> R a a"
  shows "find P xs = Some x \<longleftrightarrow> x \<in> set xs \<and> P x \<and> (\<forall>y\<in>set xs. P y \<longrightarrow> y = x \<or> R x y)"
  using assms(1)
proof (induction xs)
  case Nil
  then show ?case by simp
next
  case (Cons a xs)
  then show ?case using assms(2,3) by (auto split: if_splits)
qed

section \<open>Check detection on a well-formed board\<close>

lemma is_in_check_ok:
  assumes wf: "wf_board b"
  shows "\<exists>att. squares_attacked_by b (if color = ''w'' then ''b'' else ''w'') = Inr att \<and>
           is_in_check b color =
             Inr (case find (king_at b color) all_squares of
                    None \<Rightarrow> False | Some kp \<Rightarrow> kp \<in> att)"
proof -
  define enemy where "enemy = (if color = ''w'' then ''b'' else ''w'')"
  obtain att where att: "squares_attacked_by b enemy = Inr att"
    using squares_attacked_by_ok[OF wf] by blast
  have e: "is_in_check b color =
             (case find (king_at b color) all_squares of
                None \<Rightarrow> Inr False
              | Some kp \<Rightarrow> ebind (squares_attacked_by b enemy) (\<lambda>attacked. Inr (kp \<in> attacked)))"
    by (simp only: is_in_check_def find_king_ok[OF wf] ebind_Inr Let_def enemy_def)
  have "is_in_check b color =
             Inr (case find (king_at b color) all_squares of
                    None \<Rightarrow> False | Some kp \<Rightarrow> kp \<in> att)"
    unfolding e att ebind_Inr by (cases "find (king_at b color) all_squares") simp_all
  then show ?thesis using att unfolding enemy_def by blast
qed

lemma row_major_asym: "row_major_before a b \<Longrightarrow> \<not> row_major_before b a"
  by (auto simp add: row_major_before_def split: prod.splits)

lemma row_major_irrefl: "\<not> row_major_before a a"
  by (auto simp add: row_major_before_def split: prod.splits)

lemma king_at_in_squares: "king_at b color sq \<Longrightarrow> sq \<in> set all_squares"
  by (auto simp add: king_at_def set_all_squares split: prod.splits)

lemma find_king_first:
  "find (king_at b color) all_squares = Some kp \<longleftrightarrow>
     king_at b color kp \<and> (\<forall>sq. king_at b color sq \<longrightarrow> sq = kp \<or> row_major_before kp sq)"
proof -
  have "find (king_at b color) all_squares = Some kp \<longleftrightarrow>
          kp \<in> set all_squares \<and> king_at b color kp
          \<and> (\<forall>y\<in>set all_squares. king_at b color y \<longrightarrow> y = kp \<or> row_major_before kp y)"
    by (rule find_some_iff_first[OF all_squares_sorted row_major_asym row_major_irrefl])
  also have "\<dots> \<longleftrightarrow> king_at b color kp
          \<and> (\<forall>sq. king_at b color sq \<longrightarrow> sq = kp \<or> row_major_before kp sq)"
    using king_at_in_squares[of b color] by blast
  finally show ?thesis .
qed

lemma find_king_none:
  "find (king_at b color) all_squares = None \<longleftrightarrow> (\<forall>sq. \<not> king_at b color sq)"
  using king_at_in_squares[of b color] by (auto simp add: find_None_iff)


section \<open>The legal move filter on a well-formed board\<close>

lemma simulate_ok:
  assumes wf: "wf_board b" and m: "well_formed_move b color0 m"
  shows "\<exists>nb chk. make_move b m = Inr nb \<and> wf_board nb \<and> is_in_check nb color = Inr chk"
proof -
  obtain r1 c1 r2 c2 where md: "m = ((r1, c1), (r2, c2))" by (cases m) auto
  have ib: "in_bounds r1 c1" "in_bounds r2 c2"
    using m by (simp_all add: md well_formed_move_def)
  obtain nb where nb: "make_move b m = Inr nb"
    using make_move_wf[OF wf ib] by (simp add: md)
  have wfn: "wf_board nb" using wf_make_move[OF wf ib] nb by (simp add: md)
  from is_in_check_ok[OF wfn, of color] nb wfn show ?thesis by blast
qed

lemma legal_step_eq:
  "legal_step b color =
     (\<lambda>m acc. ebind (ebind (make_move b m) (\<lambda>nb. is_in_check nb color))
                 (\<lambda>chk. if \<not> chk then Inr (acc @ [m]) else Inr acc))"
  by (intro ext) (simp add: legal_step_def ebind_def split: sum.split)

lemma generate_legal_moves_ok:
  assumes wf: "wf_board b"
  shows "\<exists>pseudo. generate_pseudo_legal_moves b color = Inr pseudo \<and>
           list_all (well_formed_move b color) pseudo \<and>
           generate_legal_moves b color =
             Inr (filter (\<lambda>m. ebind (make_move b m) (\<lambda>nb. is_in_check nb color) = Inr False)
                    pseudo)"
proof -
  from generate_pseudo_legal_moves_ok[OF wf, of color] obtain pseudo where
    ps: "generate_pseudo_legal_moves b color = Inr pseudo"
      "list_all (well_formed_move b color) pseudo"
    by blast
  have tot: "\<exists>t. ebind (make_move b m) (\<lambda>nb. is_in_check nb color) = Inr t"
    if "m \<in> set pseudo" for m
  proof -
    have "well_formed_move b color m" using ps(2) that by (simp add: list_all_iff)
    from simulate_ok[OF wf this, of color] show ?thesis by (auto simp add: ebind_Inr)
  qed
  have "for_each pseudo (legal_step b color) [] =
      Inr ([] @ filter (\<lambda>m. \<exists>t. ebind (make_move b m) (\<lambda>nb. is_in_check nb color) = Inr t
                              \<and> \<not> t) pseudo)"
    unfolding legal_step_eq by (rule for_each_filter[OF tot])
  moreover have "(\<exists>t. x = Inr t \<and> \<not> t) \<longleftrightarrow> x = Inr False" for x :: "error + bool"
    by auto
  ultimately show ?thesis using ps by (simp add: generate_legal_moves_def ebind_Inr)
qed


section \<open>The opponent move selector on a well-formed board\<close>

lemma capture_step_eq:
  "capture_step b =
     (\<lambda>m acc. ebind (board_get b (fst (snd m)) (snd (snd m)))
                 (\<lambda>q. if q \<noteq> None then Inr (acc @ [m]) else Inr acc))"
  by (intro ext) (simp add: capture_step_def split: prod.split)

lemma capture_loop:
  assumes wf: "wf_board b" and ms: "list_all (well_formed_move b color) moves"
  shows "for_each moves (capture_step b) [] = Inr (filter (occupied_target b) moves)"
proof -
  have tot: "\<exists>t. board_get b (fst (snd m)) (snd (snd m)) = Inr t" if "m \<in> set moves" for m
  proof -
    have "well_formed_move b color m" using ms that by (simp add: list_all_iff)
    then have "in_bounds (fst (snd m)) (snd (snd m))"
      by (auto simp add: well_formed_move_def split: prod.splits)
    from board_get_wf[OF wf this] show ?thesis by blast
  qed
  have eq: "(\<exists>t. board_get b (fst (snd m)) (snd (snd m)) = Inr t \<and> t \<noteq> None)
              \<longleftrightarrow> occupied_target b m" for m
    by (auto simp add: occupied_target_def split: prod.splits sum.splits option.splits)
  have "for_each moves (capture_step b) [] =
      Inr ([] @ filter (\<lambda>m. \<exists>t. board_get b (fst (snd m)) (snd (snd m)) = Inr t \<and> t \<noteq> None)
                  moves)"
    unfolding capture_step_eq by (rule for_each_filter[OF tot])
  then show ?thesis unfolding eq by simp
qed

lemma random_choice_member:
  "pool \<noteq> [] \<Longrightarrow> \<exists>m. random_choice seed pool = Inr m \<and> m \<in> set pool"
  by (simp add: random_choice_def)

lemma ai_choose_move_ok:
  assumes wf: "wf_board b"
  shows "\<exists>legal. generate_legal_moves b ''b'' = Inr legal \<and>
           ai_choose_move seed b =
             (if legal = [] then Inr None
              else ebind (random_choice seed
                     (if filter (occupied_target b) legal \<noteq> [] then filter (occupied_target b) legal
                      else legal)) (\<lambda>m. Inr (Some m)))"
proof -
  from generate_legal_moves_ok[OF wf, of "''b''"] obtain pseudo where
    ps: "list_all (well_formed_move b ''b'') pseudo"
      "generate_legal_moves b ''b'' =
         Inr (filter (\<lambda>m. ebind (make_move b m) (\<lambda>nb. is_in_check nb ''b'') = Inr False) pseudo)"
    by blast
  let ?legal = "filter (\<lambda>m. ebind (make_move b m) (\<lambda>nb. is_in_check nb ''b'') = Inr False) pseudo"
  have "list_all (well_formed_move b ''b'') ?legal"
    using ps(1) by (simp add: list_all_iff)
  from capture_loop[OF wf this]
  have "ai_choose_move seed b =
             (if ?legal = [] then Inr None
              else ebind (random_choice seed
                     (if filter (occupied_target b) ?legal \<noteq> [] then filter (occupied_target b) ?legal
                      else ?legal)) (\<lambda>m. Inr (Some m)))"
    by (simp add: ai_choose_move_def ps(2) ebind_Inr Let_def)
  with ps(2) show ?thesis by blast
qed


section \<open>Moves in the example positions\<close>

lemma pin_pseudo_white:
  "generate_pseudo_legal_moves pin_position ''w'' =
     Inr [((6, 4), (5, 3)), ((6, 4), (4, 2)), ((6, 4), (3, 1)), ((6, 4), (2, 0)),
          ((6, 4), (5, 5)), ((6, 4), (4, 6)), ((6, 4), (3, 7)), ((6, 4), (7, 3)),
          ((6, 4), (7, 5)), ((7, 4), (6, 3)), ((7, 4), (6, 5)), ((7, 4), (7, 3)),
          ((7, 4), (7, 5))]"
  by code_simp

lemma pin_legal_white:
  "generate_legal_moves pin_position ''w'' =
     Inr [((7, 4), (6, 3)), ((7, 4), (6, 5)), ((7, 4), (7, 3)), ((7, 4), (7, 5))]"
  by code_simp

lemma pin_legal_black:
  "generate_legal_moves pin_position ''b'' =
     Inr [((0, 0), (0, 1)), ((0, 0), (1, 0)), ((0, 0), (1, 1)), ((0, 4), (1, 4)),
          ((0, 4), (2, 4)), ((0, 4), (3, 4)), ((0, 4), (4, 4)), ((0, 4), (5, 4)),
          ((0, 4), (6, 4)), ((0, 4), (0, 3)), ((0, 4), (0, 2)), ((0, 4), (0, 1)),
          ((0, 4), (0, 5)), ((0, 4), (0, 6)), ((0, 4), (0, 7))]"
  by code_simp

lemma initial_board_value: "initial_board = Inr start_position"
  by code_simp

lemma start_legal_white:
  "generate_legal_moves start_position ''w'' =
     Inr [((6, 0), (5, 0)), ((6, 0), (4, 0)), ((6, 1), (5, 1)), ((6, 1), (4, 1)),
          ((6, 2), (5, 2)), ((6, 2), (4, 2)), ((6, 3), (5, 3)), ((6, 3), (4, 3)),
          ((6, 4), (5, 4)), ((6, 4), (4, 4)), ((6, 5), (5, 5)), ((6, 5), (4, 5)),
          ((6, 6), (5, 6)), ((6, 6), (4, 6)), ((6, 7), (5, 7)), ((6, 7), (4, 7)),
          ((7, 1), (5, 0)), ((7, 1), (5, 2)), ((7, 6), (5, 5)), ((7, 6), (5, 7))]"
  by code_simp

lemma start_not_in_check:
  "is_in_check start_position ''w'' = Inr False" "is_in_check start_position ''b'' = Inr False"
  by code_simp+


lemma pin_move_check:
  "board_get pin_position 6 4 = Inr (Some \<lparr>ptype = ''B'', pcolor = ''w''\<rparr>)"
  "ebind (make_move pin_position ((6, 4), (5, 3))) (\<lambda>nb. is_in_check nb ''w'') = Inr True"
  by code_simp+

lemma pin_heap_move:
  "fst (h_make_move (VRef 8) ((6, 4), (5, 3)) pin_heap) = Inr (VRef 17)"
  "h_square pin_heap (VRef 8) 6 4 = Inr (Some \<lparr>ptype = ''B'', pcolor = ''w''\<rparr>)"
  "h_square (snd (h_make_move (VRef 8) ((6, 4), (5, 3)) pin_heap)) (VRef 17) 6 4 = Inr None"
  "h_square (snd (h_make_move (VRef 8) ((6, 4), (5, 3)) pin_heap)) (VRef 17) 5 3
     = Inr (Some \<lparr>ptype = ''B'', pcolor = ''w''\<rparr>)"
  by code_simp+

lemma pin_heap_shows: "h_shows pin_heap (VRef 8) pin_position"
  by code_simp

lemma make_move_same_square:
  "board_get start_position 6 0 = Inr (Some \<lparr>ptype = ''P'', pcolor = ''w''\<rparr>)"
  "make_move start_position ((6, 0), (6, 0)) = Inr start_position"
  by code_simp+

section \<open>Rules for statement sequences on the store\<close>

lemma hoareI:
  assumes "\<And>h res h'. hinv old h \<Longrightarrow> m h = (res, h') \<Longrightarrow> hinv old h'"
    and "\<And>h x h'. hinv old h \<Longrightarrow> m h = (Inr x, h') \<Longrightarrow> Q x"
  shows "hoare old m Q"
  unfolding hoare_def using assms by (auto split: sum.split)

lemma hoareD:
  assumes "hoare old m Q" "hinv old h" "m h = (res, h')"
  shows "hinv old h'" and "res = Inr x \<Longrightarrow> Q x"
  using assms unfolding hoare_def by (auto split: sum.splits)

lemma hoare_return: "Q x \<Longrightarrow> hoare old (hreturn x) Q"
  by (simp add: hoare_def hreturn_def)

lemma hoare_bind:
  assumes m: "hoare old m Q" and f: "\<And>x. Q x \<Longrightarrow> hoare old (f x) R"
  shows "hoare old (hbind m f) R"
proof (rule hoareI)
  fix h res h'
  assume inv: "hinv old h" and run: "hbind m f h = (res, h')"
  obtain r1 h1 where r1: "m h = (r1, h1)" by (cases "m h")
  note m1 = hoareD[OF m inv r1]
  show "hinv old h'"
  proof (cases r1)
    case (Inl e)
    then show ?thesis using run r1 m1(1) by (simp add: hbind_def)
  next
    case (Inr x)
    then have "f x h1 = (res, h')" using run r1 by (simp add: hbind_def)
    from hoareD(1)[OF f[OF m1(2)[OF Inr]] m1(1) this] show ?thesis .
  qed
next
  fix h x h'
  assume inv: "hinv old h" and run: "hbind m f h = (Inr x, h')"
  obtain r1 h1 where r1: "m h = (r1, h1)" by (cases "m h")
  note m1 = hoareD[OF m inv r1]
  show "R x"
  proof (cases r1)
    case (Inl e)
    then show ?thesis using run r1 by (simp add: hbind_def)
  next
    case (Inr y)
    then have "f y h1 = (Inr x, h')" using run r1 by (simp add: hbind_def)
    from hoareD(2)[OF f[OF m1(2)[OF Inr]] m1(1) this] show ?thesis by simp
  qed
qed

lemma hoare_for_each:
  assumes "I s" and "\<And>x s. I s \<Longrightarrow> hoare old (body x s) I"
  shows "hoare old (hfor_each xs body s) I"
  using assms(1)
proof (induction xs arbitrary: s)
  case Nil
  then show ?case by (simp add: hoare_return)
next
  case (Cons x xs)
  show ?case
    unfolding hfor_each.simps
    by (rule hoare_bind[OF assms(2)[OF Cons.prems]]) (rule Cons.IH)
qed

lemma hoare_read:
  assumes "\<And>h. snd (m h) = h"
  shows "hoare old m (\<lambda>_. True)"
proof (rule hoareI)
  fix h res h' assume "hinv old h" "m h = (res, h')"
  then show "hinv old h'" using assms[of h] by simp
qed simp

section \<open>The move executor maintains the invariants of the store\<close>

lemma py_get_member: "py_get xs i = Inr x \<Longrightarrow> x \<in> set xs"
  by (auto simp add: py_get_def py_index_def ebind_def Let_def split: if_splits)

lemma py_set_subset: "py_set xs i v = Inr ys \<Longrightarrow> set ys \<subseteq> insert v (set xs)"
  by (auto simp add: py_set_def py_index_def ebind_def Let_def split: if_splits
      dest: set_update_subset_insert[THEN subsetD])

lemma h_list_Inr:
  "h_list h v = Inr xs \<longleftrightarrow> (\<exists>a. v = VRef a \<and> a < length h \<and> h ! a = OList xs)"
  by (auto simp add: h_list_def split: val.splits obj.splits if_splits)

lemma zone_closed_obj:
  assumes "zone_closed n h" "n \<le> a" "a < length h"
  shows "fresh_obj n (h ! a)"
proof -
  have "\<forall>i < length h - n. fresh_obj n (h ! (n + i))"
    using assms(1) by (simp add: zone_closed_def list_all_length)
  moreover have "a - n < length h - n" "n + (a - n) = a" using assms(2,3) by auto
  ultimately show ?thesis by metis
qed

lemma zone_closedD:
  assumes "zone_closed n h" "n \<le> a" "a < length h" "h ! a = OList xs"
  shows "list_all (fresh_val n) xs"
  using zone_closed_obj[OF assms(1-3)] assms(4) by (simp add: fresh_obj_def)

lemma zone_closedI:
  assumes "\<And>a. n \<le> a \<Longrightarrow> a < length h \<Longrightarrow> fresh_obj n (h ! a)"
  shows "zone_closed n h"
  unfolding zone_closed_def list_all_length
proof (intro allI impI)
  fix i assume "i < length (drop n h)"
  then have "n + i < length h" by simp
  from assms[of "n + i"] this show "fresh_obj n (drop n h ! i)" by simp
qed

lemma hoare_load_any: "hoare old (h_load v i) (\<lambda>_. True)"
  by (rule hoare_read) (simp add: h_load_def)

lemma hoare_key: "hoare old (h_key p k) (\<lambda>_. True)"
  by (rule hoare_read) (simp add: h_key_def)

lemma hoare_truthy: "hoare old (h_truthy p) (\<lambda>_. True)"
  by (rule hoare_read) (simp add: h_truthy_def)

lemma hoare_load:
  assumes "fresh_val (length old) v"
  shows "hoare old (h_load v i) (fresh_val (length old))"
proof (rule hoareI)
  fix h res h' assume "hinv old h" "h_load v i h = (res, h')"
  then show "hinv old h'" by (simp add: h_load_def)
next
  fix h x h'
  assume inv: "hinv old h" and run: "h_load v i h = (Inr x, h')"
  from run obtain xs where xs: "h_list h v = Inr xs" and x: "py_get xs i = Inr x"
    by (auto simp add: h_load_def ebind_def split: sum.splits)
  from xs obtain a where a: "v = VRef a" "a < length h" "h ! a = OList xs"
    by (auto simp add: h_list_Inr)
  have "length old \<le> a" using assms a(1) by (simp add: fresh_val_def)
  from zone_closedD[OF _ this a(2,3)] inv have "list_all (fresh_val (length old)) xs"
    by (simp add: hinv_def)
  with py_get_member[OF x] show "fresh_val (length old) x" by (simp add: list_all_iff)
qed

lemma hoare_new:
  assumes "fresh_obj (length old) ob"
  shows "hoare old (h_new ob) (\<lambda>v. fresh_val (length old) v \<and> v \<noteq> VNone)"
proof (rule hoareI)
  fix h res h' assume inv: "hinv old h" and run: "h_new ob h = (res, h')"
  have h': "h' = h @ [ob]" using run by (simp add: h_new_def)
  have k: "keeps old h'" using inv by (simp add: h' hinv_def keeps_def)
  have z: "zone_closed (length old) h'"
    using inv assms by (simp add: h' hinv_def keeps_def zone_closed_def)
  show "hinv old h'" using k z by (simp add: hinv_def)
next
  fix h x h'
  assume inv: "hinv old h" and run: "h_new ob h = (Inr x, h')"
  then show "fresh_val (length old) x \<and> x \<noteq> VNone"
    by (auto simp add: h_new_def hinv_def keeps_def fresh_val_def)
qed

lemma hoare_store:
  assumes v: "fresh_val (length old) v" and x: "fresh_val (length old) x"
  shows "hoare old (h_store v i x) (\<lambda>_. True)"
proof (rule hoareI)
  fix h res h' assume inv: "hinv old h" and run: "h_store v i x h = (res, h')"
  show "hinv old h'"
  proof (cases "ebind (h_list h v) (\<lambda>xs. py_set xs i x)")
    case (Inl e)
    then show ?thesis using run inv by (simp add: h_store_def)
  next
    case (Inr xs')
    then obtain xs where xs: "h_list h v = Inr xs" and set: "py_set xs i x = Inr xs'"
      by (auto simp add: ebind_def split: sum.splits)
    from xs obtain a where a: "v = VRef a" "a < length h" "h ! a = OList xs"
      by (auto simp add: h_list_Inr)
    have na: "length old \<le> a" using v a(1) by (simp add: fresh_val_def)
    have h': "h' = h[a := OList xs']" using run Inr a(1) by (simp add: h_store_def)
    have k: "keeps old h'" using inv na by (simp add: h' hinv_def keeps_def)
    have z: "zone_closed (length old) h" using inv by (simp add: hinv_def)
    have fx: "list_all (fresh_val (length old)) xs'"
      using zone_closedD[OF z na a(2,3)] x py_set_subset[OF set]
      by (auto simp add: list_all_iff)
    have "zone_closed (length old) h'"
    proof (rule zone_closedI)
      fix b assume b: "length old \<le> b" "b < length h'"
      show "fresh_obj (length old) (h' ! b)"
      proof (cases "b = a")
        case True
        then show ?thesis using fx a(2) by (simp add: h' fresh_obj_def)
      next
        case False
        then show ?thesis using zone_closed_obj[OF z b(1)] b(2) by (simp add: h')
      qed
    qed
    with k show ?thesis by (simp add: hinv_def)
  qed
qed simp

lemma hoare_load2:
  "fresh_val (length old) v \<Longrightarrow> hoare old (h_load2 v r c) (fresh_val (length old))"
  unfolding h_load2_def by (rule hoare_bind[OF hoare_load]) (simp_all add: hoare_load)

lemma hoare_load2_any: "hoare old (h_load2 v r c) (\<lambda>_. True)"
  unfolding h_load2_def by (rule hoare_bind[OF hoare_load_any]) (rule hoare_load_any)

lemma hoare_store2:
  "fresh_val (length old) v \<Longrightarrow> fresh_val (length old) x \<Longrightarrow>
   hoare old (h_store2 v r c x) (\<lambda>_. True)"
  unfolding h_store2_def by (rule hoare_bind[OF hoare_load]) (simp_all add: hoare_store)


lemma hoare_empty_board:
  "hoare old h_empty_board (\<lambda>v. fresh_val (length old) v \<and> v \<noteq> VNone)"
  unfolding h_empty_board_def
proof (rule hoare_bind[where Q = "list_all (fresh_val (length old))"])
  show "hoare old
     (hfor_each (py_range ROWS)
       (\<lambda>_ rows. hbind (h_new (OList (map (\<lambda>_. VNone) (py_range COLS))))
                    (\<lambda>row. hreturn (rows @ [row]))) [])
     (list_all (fresh_val (length old)))"
  proof (rule hoare_for_each)
    show "list_all (fresh_val (length old)) []" by simp
  next
    fix x :: int and s :: "val list"
    assume s: "list_all (fresh_val (length old)) s"
    have row: "fresh_obj (length old) (OList (map (\<lambda>_. VNone) (py_range COLS)))"
      by (simp add: fresh_obj_def list_all_iff fresh_val_def)
    show "hoare old (hbind (h_new (OList (map (\<lambda>_. VNone) (py_range COLS))))
                      (\<lambda>row. hreturn (s @ [row])))
            (list_all (fresh_val (length old)))"
      by (rule hoare_bind[OF hoare_new[OF row]]) (simp add: hoare_return s)
  qed
next
  fix rows :: "val list"
  assume "list_all (fresh_val (length old)) rows"
  then have "fresh_obj (length old) (OList rows)" by (simp add: fresh_obj_def)
  then show "hoare old (h_new (OList rows)) (\<lambda>v. fresh_val (length old) v \<and> v \<noteq> VNone)"
    by (rule hoare_new)
qed

lemma hoare_copy_cell:
  assumes nb: "fresh_val (length old) new_board"
  shows "hoare old (h_copy_cell board new_board sq u) (\<lambda>_. True)"
proof -
  obtain r c where sq: "sq = (r, c)" by (cases sq)
  have none: "fresh_val (length old) VNone" by (simp add: fresh_val_def)
  have body: "hoare old
     (case p of
        VNone \<Rightarrow> h_store2 new_board r c VNone
      | VRef a \<Rightarrow>
          hbind (h_key p ''type'') (\<lambda>t.
          hbind (h_key p ''color'') (\<lambda>cl.
          hbind (h_new (ODict t cl)) (\<lambda>d.
          h_store2 new_board r c d)))) (\<lambda>_. True)" for p
  proof (cases p)
    case VNone
    then show ?thesis by (simp add: hoare_store2[OF nb none])
  next
    case (VRef a)
    have "hoare old (hbind (h_new (ODict t cl)) (\<lambda>d. h_store2 new_board r c d)) (\<lambda>_. True)"
      for t cl
      by (rule hoare_bind[OF hoare_new])
         (simp_all add: fresh_obj_def hoare_store2[OF nb])
    then have "hoare old
          (hbind (h_key p ''type'') (\<lambda>t.
          hbind (h_key p ''color'') (\<lambda>cl.
          hbind (h_new (ODict t cl)) (\<lambda>d.
          h_store2 new_board r c d)))) (\<lambda>_. True)"
      by (intro hoare_bind[OF hoare_key])
    then show ?thesis by (simp add: VRef)
  qed
  show ?thesis
    unfolding h_copy_cell_def sq prod.case
    by (rule hoare_bind[OF hoare_load2_any]) (rule body)
qed

lemma hoare_deep_copy_board:
  "hoare old (h_deep_copy_board board) (\<lambda>v. fresh_val (length old) v \<and> v \<noteq> VNone)"
  unfolding h_deep_copy_board_def
proof (rule hoare_bind[OF hoare_empty_board])
  fix new_board
  assume nb: "fresh_val (length old) new_board \<and> new_board \<noteq> VNone"
  have loop: "hoare old (hfor_each all_squares (h_copy_cell board new_board) ()) (\<lambda>_. True)"
    by (rule hoare_for_each) (simp_all add: hoare_copy_cell nb)
  show "hoare old
          (hbind (hfor_each all_squares (h_copy_cell board new_board) ())
             (\<lambda>_. hreturn new_board))
          (\<lambda>v. fresh_val (length old) v \<and> v \<noteq> VNone)"
    by (rule hoare_bind[OF loop]) (simp add: hoare_return nb)
qed

lemma hoare_make_move:
  "hoare old (h_make_move board m) (\<lambda>v. fresh_val (length old) v \<and> v \<noteq> VNone)"
proof -
  obtain r1 c1 r2 c2 where m: "m = ((r1, c1), (r2, c2))" by (cases m) auto
  let ?n = "length old"
  let ?Q = "\<lambda>v. fresh_val ?n v \<and> v \<noteq> VNone"
  have none: "fresh_val ?n VNone" by (simp add: fresh_val_def)
  have tail: "hoare old
       (if promotes then
            hbind (h_key piece ''color'') (\<lambda>cl.
            hbind (h_new (ODict ''Q'' cl)) (\<lambda>queen.
            hbind (h_store2 new_board r2 c2 queen) (\<lambda>_.
            hreturn new_board)))
          else
            hbind (h_store2 new_board r2 c2 piece) (\<lambda>_.
            hreturn new_board)) ?Q"
    if nb: "?Q new_board" and pc: "fresh_val ?n piece" for new_board piece promotes
  proof (cases promotes)
    case True
    have "hoare old (hbind (h_new (ODict ''Q'' cl)) (\<lambda>queen.
            hbind (h_store2 new_board r2 c2 queen) (\<lambda>_. hreturn new_board))) ?Q" for cl
    proof (rule hoare_bind[OF hoare_new])
      show "fresh_obj ?n (ODict ''Q'' cl)" by (simp add: fresh_obj_def)
    next
      fix queen assume "fresh_val ?n queen \<and> queen \<noteq> VNone"
      then have "hoare old (h_store2 new_board r2 c2 queen) (\<lambda>_. True)"
        using nb by (simp add: hoare_store2)
      then show "hoare old (hbind (h_store2 new_board r2 c2 queen) (\<lambda>_. hreturn new_board)) ?Q"
        by (rule hoare_bind) (simp add: hoare_return nb)
    qed
    then have "hoare old (hbind (h_key piece ''color'') (\<lambda>cl.
            hbind (h_new (ODict ''Q'' cl)) (\<lambda>queen.
            hbind (h_store2 new_board r2 c2 queen) (\<lambda>_.
            hreturn new_board)))) ?Q"
      by (intro hoare_bind[OF hoare_key])
    then show ?thesis using True by simp
  next
    case False
    have "hoare old (h_store2 new_board r2 c2 piece) (\<lambda>_. True)"
      using nb pc by (simp add: hoare_store2)
    then have "hoare old (hbind (h_store2 new_board r2 c2 piece) (\<lambda>_. hreturn new_board)) ?Q"
      by (rule hoare_bind) (simp add: hoare_return nb)
    then show ?thesis using False by simp
  qed
  have pawn: "hoare old (if truthy then hbind (h_key piece ''type'') (\<lambda>t. hreturn (t = ''P''))
               else hreturn False) (\<lambda>_. True)" for truthy piece
    by (cases truthy) (auto intro: hoare_bind[OF hoare_key] hoare_return)
  have prom: "hoare old (if is_pawn then
                 hbind (h_key piece ''color'') (\<lambda>cl.
                   hreturn (r2 = (if cl = ''w'' then 0 else 7)))
               else hreturn False) (\<lambda>_. True)" for is_pawn piece
    by (cases is_pawn) (auto intro: hoare_bind[OF hoare_key] hoare_return)
  show ?thesis
    unfolding h_make_move_def m prod.case
  proof (rule hoare_bind[OF hoare_deep_copy_board])
    fix new_board assume nb: "?Q new_board"
    show "hoare old
          (hbind (h_load2 new_board r1 c1) (\<lambda>piece.
        hbind (h_store2 new_board r1 c1 VNone) (\<lambda>_.
        hbind (h_truthy piece) (\<lambda>truthy.
        hbind (if truthy then hbind (h_key piece ''type'') (\<lambda>t. hreturn (t = ''P''))
               else hreturn False) (\<lambda>is_pawn.
        hbind (if is_pawn then
                 hbind (h_key piece ''color'') (\<lambda>cl.
                   hreturn (r2 = (if cl = ''w'' then 0 else 7)))
               else hreturn False) (\<lambda>promotes.
          if promotes then
            hbind (h_key piece ''color'') (\<lambda>cl.
            hbind (h_new (ODict ''Q'' cl)) (\<lambda>queen.
            hbind (h_store2 new_board r2 c2 queen) (\<lambda>_.
            hreturn new_board)))
          else
            hbind (h_store2 new_board r2 c2 piece) (\<lambda>_.
            hreturn new_board))))))) ?Q"
    proof (rule hoare_bind[OF hoare_load2])
      show "fresh_val ?n new_board" using nb by simp
    next
      fix piece assume pc: "fresh_val ?n piece"
      have st: "hoare old (h_store2 new_board r1 c1 VNone) (\<lambda>_. True)"
        using nb none by (simp add: hoare_store2)
      show "hoare old
         (hbind (h_store2 new_board r1 c1 VNone) (\<lambda>_.
        hbind (h_truthy piece) (\<lambda>truthy.
        hbind (if truthy then hbind (h_key piece ''type'') (\<lambda>t. hreturn (t = ''P''))
               else hreturn False) (\<lambda>is_pawn.
        hbind (if is_pawn then
                 hbind (h_key piece ''color'') (\<lambda>cl.
                   hreturn (r2 = (if cl = ''w'' then 0 else 7)))
               else hreturn False) (\<lambda>promotes.
          if promotes then
            hbind (h_key piece ''color'') (\<lambda>cl.
            hbind (h_new (ODict ''Q'' cl)) (\<lambda>queen.
            hbind (h_store2 new_board r2 c2 queen) (\<lambda>_.
            hreturn new_board)))
          else
            hbind (h_store2 new_board r2 c2 piece) (\<lambda>_.
            hreturn new_board)))))) ?Q"
        by (intro hoare_bind[OF st] hoare_bind[OF hoare_truthy] hoare_bind[OF pawn]
            hoare_bind[OF prom] tail[OF nb pc])
    qed
  qed
qed

section \<open>What the old objects show, and what the new board reaches\<close>

lemma hinv_refl: "hinv h h"
  by (simp add: hinv_def keeps_def zone_closed_def)

lemma reach_fresh:
  "reach h v a \<Longrightarrow> zone_closed n h \<Longrightarrow> fresh_val n v \<Longrightarrow> n \<le> a"
proof (induction rule: reach.induct)
  case (reach_self h a)
  then show ?case by (simp add: fresh_val_def)
next
  case (reach_elem a h xs x b)
  have "n \<le> a" using reach_elem.prems by (simp add: fresh_val_def)
  from zone_closedD[OF reach_elem.prems(1) this reach_elem.hyps(1,2)] reach_elem.hyps(3)
  have "fresh_val n x" by (simp add: list_all_iff)
  then show ?case using reach_elem by simp
qed

lemma keeps_nth: "keeps old h \<Longrightarrow> a < length old \<Longrightarrow> h ! a = old ! a"
  by (metis keeps_def nth_take)

lemma ebind_not_bad:
  assumes "ebind m f \<noteq> Inl BadAddress"
  shows "m \<noteq> Inl BadAddress" and "m = Inr x \<Longrightarrow> f x \<noteq> Inl BadAddress"
  using assms by (auto simp add: ebind_def)

lemma h_list_keeps:
  assumes "keeps old h" "h_list old v \<noteq> Inl BadAddress"
  shows "h_list h v = h_list old v"
proof (cases v)
  case VNone
  then show ?thesis by (simp add: h_list_def)
next
  case (VRef a)
  have a: "a < length old" using assms(2) VRef by (simp add: h_list_def split: if_splits)
  then have "a < length h" using assms(1) by (simp add: keeps_def)
  then show ?thesis using a keeps_nth[OF assms(1) a] by (simp add: h_list_def VRef)
qed

lemma h_load_keeps:
  assumes "keeps old h" "fst (h_load v i old) \<noteq> Inl BadAddress"
  shows "fst (h_load v i h) = fst (h_load v i old)"
proof -
  have "h_list old v \<noteq> Inl BadAddress"
    using assms(2) by (auto simp add: h_load_def ebind_def)
  from h_list_keeps[OF assms(1) this] show ?thesis by (simp add: h_load_def)
qed

lemma h_load2_fst:
  "fst (h_load2 v r c h) = ebind (fst (h_load v r h)) (\<lambda>row. fst (h_load row c h))"
  by (simp add: h_load2_def hbind_def h_load_def ebind_def split: sum.split)

lemma h_load2_keeps:
  assumes "keeps old h" "fst (h_load2 v r c old) \<noteq> Inl BadAddress"
  shows "fst (h_load2 v r c h) = fst (h_load2 v r c old)"
proof -
  note nb = ebind_not_bad[OF assms(2)[unfolded h_load2_fst]]
  have 1: "fst (h_load v r h) = fst (h_load v r old)"
    by (rule h_load_keeps[OF assms(1) nb(1)])
  show ?thesis
  proof (cases "fst (h_load v r old)")
    case (Inl e)
    then show ?thesis by (simp add: h_load2_fst 1 ebind_def)
  next
    case (Inr row)
    from h_load_keeps[OF assms(1) nb(2)[OF Inr]]
    show ?thesis by (simp add: h_load2_fst 1 Inr ebind_def)
  qed
qed

lemma h_key_keeps:
  assumes "keeps old h" "fst (h_key p k old) \<noteq> Inl BadAddress"
  shows "fst (h_key p k h) = fst (h_key p k old)"
proof (cases p)
  case VNone
  then show ?thesis by (simp add: h_key_def)
next
  case (VRef a)
  have a: "a < length old" using assms(2) VRef by (simp add: h_key_def split: if_splits)
  then have "a < length h" using assms(1) by (simp add: keeps_def)
  then show ?thesis using a keeps_nth[OF assms(1) a] by (simp add: h_key_def VRef)
qed

lemma h_square_keeps:
  assumes k: "keeps old h" and nb: "h_square old v r c \<noteq> Inl BadAddress"
  shows "h_square h v r c = h_square old v r c"
proof -
  note n1 = ebind_not_bad[OF nb[unfolded h_square_def]]
  have 1: "fst (h_load2 v r c h) = fst (h_load2 v r c old)"
    by (rule h_load2_keeps[OF k n1(1)])
  show ?thesis
  proof (cases "fst (h_load2 v r c old)")
    case (Inl e)
    then show ?thesis by (simp add: h_square_def 1 ebind_def)
  next
    case (Inr p)
    show ?thesis
    proof (cases p)
      case VNone
      then show ?thesis by (simp add: h_square_def 1 Inr ebind_def)
    next
      case (VRef a)
      note n2 = ebind_not_bad[OF n1(2)[OF Inr, unfolded VRef val.case]]
      have 2: "fst (h_key (VRef a) ''type'' h) = fst (h_key (VRef a) ''type'' old)"
        by (rule h_key_keeps[OF k n2(1)])
      show ?thesis
      proof (cases "fst (h_key (VRef a) ''type'' old)")
        case (Inl e)
        then show ?thesis by (simp add: h_square_def 1 Inr VRef 2 ebind_def)
      next
        case t: (Inr t)
        note n3 = ebind_not_bad[OF n2(2)[OF t]]
        have 3: "fst (h_key (VRef a) ''color'' h) = fst (h_key (VRef a) ''color'' old)"
          by (rule h_key_keeps[OF k n3(1)])
        show ?thesis by (simp add: h_square_def 1 Inr VRef 2 3 ebind_def)
      qed
    qed
  qed
qed


section \<open>The store model computes what the pure model computes\<close>

lemma hbind_apply:
  "hbind m f h = (case m h of (Inl e, h') \<Rightarrow> (Inl e, h') | (Inr x, h') \<Rightarrow> f x h')"
  by (simp add: hbind_def)

lemma update_other: "\<not> (d = a \<and> a < length h) \<Longrightarrow> h[a := y] ! d = h ! d"
  by (cases "a < length h") (simp_all add: nth_list_update list_update_beyond not_less)

lemma rows_loop:
  "hfor_each xs (\<lambda>_ rows. hbind (h_new ob) (\<lambda>row. hreturn (rows @ [row]))) acc h
     = (Inr (acc @ map VRef [length h ..< length h + length xs]), h @ replicate (length xs) ob)"
proof (induction xs arbitrary: acc h)
  case Nil
  then show ?case by (simp add: hreturn_def)
next
  case (Cons x xs)
  let ?body = "\<lambda>_ rows. hbind (h_new ob) (\<lambda>row. hreturn (rows @ [row]))"
  have step: "?body x acc h = (Inr (acc @ [VRef (length h)]), h @ [ob])"
    by (simp add: hbind_def h_new_def hreturn_def)
  have up: "[length h ..< length h + length (x # xs)]
          = length h # [length (h @ [ob]) ..< length (h @ [ob]) + length xs]"
  proof -
    have "[length h ..< length h + Suc (length xs)]
            = length h # [Suc (length h) ..< length h + Suc (length xs)]"
      by (rule upt_conv_Cons) simp
    moreover have "length (h @ [ob]) = Suc (length h)"
      "length (h @ [ob]) + length xs = length h + Suc (length xs)"
      "length (x # xs) = Suc (length xs)" by simp_all
    ultimately show ?thesis by (simp only:)
  qed
  have "hfor_each (x # xs) ?body acc h = hfor_each xs ?body (acc @ [VRef (length h)]) (h @ [ob])"
    using step by (simp add: hbind_def)
  also have "\<dots> = (Inr ((acc @ [VRef (length h)])
                      @ map VRef [length (h @ [ob]) ..< length (h @ [ob]) + length xs]),
                   (h @ [ob]) @ replicate (length xs) ob)"
    by (rule Cons.IH)
  also have "\<dots> = (Inr (acc @ map VRef [length h ..< length h + length (x # xs)]),
                   h @ replicate (length (x # xs)) ob)"
    unfolding up by (simp add: replicate_app_Cons_same)
  finally show ?case .
qed


lemma py_get_in: "0 \<le> i \<Longrightarrow> i < int (length xs) \<Longrightarrow> py_get xs i = Inr (xs ! nat i)"
  by (simp add: py_get_def py_index_def ebind_def)

lemma py_set_in: "0 \<le> i \<Longrightarrow> i < int (length xs) \<Longrightarrow> py_set xs i v = Inr (xs[nat i := v])"
  by (simp add: py_set_def py_index_def ebind_def)

lemma h_empty_board_run:
  "h_empty_board h =
     (Inr (VRef (length h + 8)),
      h @ replicate 8 (OList (replicate 8 VNone)) @ [OList (map VRef [length h ..< length h + 8])])"
proof -
  have l: "length (py_range ROWS) = 8" by (simp add: py_range_def ROWS_def)
  have r: "map (\<lambda>_. VNone) (py_range COLS) = replicate 8 VNone"
    by (simp add: py_range_def COLS_def map_replicate_const)
  have loop: "hfor_each (py_range ROWS)
            (\<lambda>_ rows. hbind (h_new (OList (replicate 8 VNone))) (\<lambda>row. hreturn (rows @ [row])))
            [] h
          = (Inr (map VRef [length h ..< length h + 8]),
             h @ replicate 8 (OList (replicate 8 VNone)))"
    using rows_loop[of "py_range ROWS" "OList (replicate 8 VNone)" "[]" h] by (simp add: l)
  show ?thesis
    by (simp only: h_empty_board_def r hbind_apply loop) (simp add: h_new_def)
qed

lemma dict_val_append: "dict_val n h x \<Longrightarrow> dict_val n (h @ [ob]) x"
  by (auto simp add: dict_val_def nth_append split: val.splits)

lemma piece_of_append: "dict_val n h x \<Longrightarrow> piece_of (h @ [ob]) x = piece_of h x"
  by (auto simp add: dict_val_def piece_of_def nth_append split: val.splits)

lemma dict_val_update:
  assumes "h ! a = OList xs"
  shows "dict_val n (h[a := OList ys]) x = dict_val n h x"
proof (cases x)
  case VNone
  then show ?thesis by (simp add: dict_val_def)
next
  case (VRef d)
  show ?thesis
  proof (cases "d = a \<and> a < length h")
    case True
    then show ?thesis using assms by (simp add: dict_val_def VRef)
  next
    case False
    then have "h[a := OList ys] ! d = h ! d" by (rule update_other)
    then show ?thesis by (simp add: dict_val_def VRef)
  qed
qed

lemma piece_of_update:
  assumes "h ! a = OList xs"
  shows "piece_of (h[a := OList ys]) x = piece_of h x"
proof (cases x)
  case VNone
  then show ?thesis by (simp add: piece_of_def)
next
  case (VRef d)
  show ?thesis
  proof (cases "d = a \<and> a < length h")
    case True
    then show ?thesis using assms by (simp add: piece_of_def VRef)
  next
    case False
    then have "h[a := OList ys] ! d = h ! d" by (rule update_other)
    then show ?thesis by (simp add: piece_of_def VRef)
  qed
qed

lemma own_rowD:
  assumes "own_row n h a row"
  obtains cells where "n \<le> a" "a < length h" "h ! a = OList cells"
    "list_all (dict_val n h) cells" "row = map (piece_of h) cells"
  using assms by (auto simp add: own_row_def split: obj.splits)

lemma own_rowI:
  "n \<le> a \<Longrightarrow> a < length h \<Longrightarrow> h ! a = OList cells \<Longrightarrow> list_all (dict_val n h) cells \<Longrightarrow>
   row = map (piece_of h) cells \<Longrightarrow> own_row n h a row"
  by (simp add: own_row_def)

lemma own_boardD:
  assumes "own_board n h v b"
  obtains nb rows where "v = VRef nb" "n \<le> nb" "nb < length h" "h ! nb = OList (map VRef rows)"
    "distinct rows" "nb \<notin> set rows" "list_all2 (own_row n h) rows b"
  using assms by (auto simp add: own_board_def split: val.splits obj.splits)

lemma own_boardI:
  "n \<le> nb \<Longrightarrow> nb < length h \<Longrightarrow> h ! nb = OList (map VRef rows) \<Longrightarrow> distinct rows \<Longrightarrow>
   nb \<notin> set rows \<Longrightarrow> list_all2 (own_row n h) rows b \<Longrightarrow> own_board n h (VRef nb) b"
  by (auto simp add: own_board_def)

lemma own_row_append:
  assumes "own_row n h a row"
  shows "own_row n (h @ [ob]) a row"
proof -
  from assms obtain cells where c: "n \<le> a" "a < length h" "h ! a = OList cells"
    "list_all (dict_val n h) cells" "row = map (piece_of h) cells"
    by (rule own_rowD)
  have "list_all (dict_val n (h @ [ob])) cells"
    using c(4) by (auto simp add: list_all_iff dict_val_append)
  moreover have "map (piece_of (h @ [ob])) cells = map (piece_of h) cells"
    using c(4) by (auto simp add: list_all_iff piece_of_append)
  ultimately show ?thesis
    using c by (intro own_rowI[where cells = cells]) (simp_all add: nth_append)
qed

lemma own_board_append:
  assumes "own_board n h v b"
  shows "own_board n (h @ [ob]) v b"
proof -
  from assms obtain nb rows where o: "v = VRef nb" "n \<le> nb" "nb < length h"
    "h ! nb = OList (map VRef rows)" "distinct rows" "nb \<notin> set rows"
    "list_all2 (own_row n h) rows b"
    by (rule own_boardD)
  have "list_all2 (own_row n (h @ [ob])) rows b"
    using o(7) by (rule list_all2_mono) (rule own_row_append)
  then show ?thesis
    unfolding o(1) using o by (intro own_boardI[where rows = rows]) (simp_all add: nth_append)
qed


lemma own_empty_board:
  assumes "n \<le> length h"
  shows "own_board n
           (h @ replicate 8 (OList (replicate 8 VNone)) @ [OList (map VRef [length h ..< length h + 8])])
           (VRef (length h + 8)) empty_board"
proof -
  let ?h = "h @ replicate 8 (OList (replicate 8 VNone)) @ [OList (map VRef [length h ..< length h + 8])]"
  let ?rows = "[length h ..< length h + 8]"
  have len: "length ?h = length h + 9" by simp
  have top: "?h ! (length h + 8) = OList (map VRef ?rows)"
    by (simp add: nth_append)
  have row: "?h ! (length h + i) = OList (replicate 8 VNone)" if "i < 8" for i
    using that by (simp add: nth_append)
  have "own_row n ?h (?rows ! i) (empty_board ! i)" if "i < 8" for i
  proof (rule own_rowI[where cells = "replicate 8 VNone"])
    show "n \<le> ?rows ! i" using assms that by simp
    show "?rows ! i < length ?h" using that by simp
    show "?h ! (?rows ! i) = OList (replicate 8 VNone)" using row[OF that] that by simp
    show "list_all (dict_val n ?h) (replicate 8 VNone)"
      by (simp add: list_all_iff dict_val_def)
    show "empty_board ! i = map (piece_of ?h) (replicate 8 VNone)"
      using that by (simp add: empty_board_def ROWS_def COLS_def piece_of_def)
  qed
  then have "list_all2 (own_row n ?h) ?rows empty_board"
    by (simp add: list_all2_conv_all_nth empty_board_def ROWS_def)
  then show ?thesis
    using assms top by (intro own_boardI[where rows = ?rows]) simp_all
qed

lemma own_board_row:
  assumes o: "own_board n h v b" and wf: "wf_board b" and r: "0 \<le> r" "r < 8"
  obtains nb rows cells where "v = VRef nb" "n \<le> nb" "nb < length h"
    "h ! nb = OList (map VRef rows)" "length rows = 8" "distinct rows" "nb \<notin> set rows"
    "list_all2 (own_row n h) rows b"
    "n \<le> rows ! nat r" "rows ! nat r < length h" "h ! (rows ! nat r) = OList cells"
    "length cells = 8" "list_all (dict_val n h) cells" "b ! nat r = map (piece_of h) cells"
proof -
  from o obtain nb rows where o': "v = VRef nb" "n \<le> nb" "nb < length h"
    "h ! nb = OList (map VRef rows)" "distinct rows" "nb \<notin> set rows"
    "list_all2 (own_row n h) rows b"
    by (rule own_boardD)
  have len: "length rows = 8"
    using o'(7) wf by (simp add: list_all2_lengthD wf_board_len)
  have i: "nat r < length rows" using r len by simp
  from list_all2_nthD[OF o'(7) i] have "own_row n h (rows ! nat r) (b ! nat r)" .
  then obtain cells where c: "n \<le> rows ! nat r" "rows ! nat r < length h"
    "h ! (rows ! nat r) = OList cells" "list_all (dict_val n h) cells"
    "b ! nat r = map (piece_of h) cells"
    by (rule own_rowD)
  have "length (b ! nat r) = 8" using wf_board_row[OF wf r] .
  then have "length cells = 8" using c(5) by simp
  with o' len c show ?thesis by (intro that[of nb rows cells])
qed

lemma h_load_run:
  assumes "a < length h" "h ! a = OList xs" "0 \<le> i" "i < int (length xs)"
  shows "h_load (VRef a) i h = (Inr (xs ! nat i), h)"
  using assms by (simp add: h_load_def h_list_def ebind_Inr py_get_in)

lemma h_store_run:
  assumes "a < length h" "h ! a = OList xs" "0 \<le> i" "i < int (length xs)"
  shows "h_store (VRef a) i x h = (Inr (), h[a := OList (xs[nat i := x])])"
  using assms by (simp add: h_store_def h_list_def ebind_Inr py_set_in)

lemma own_load2:
  assumes o: "own_board n h v b" and wf: "wf_board b" and ib: "in_bounds r c"
  shows "\<exists>x. h_load2 v r c h = (Inr x, h) \<and> dict_val n h x \<and> piece_of h x = cell b r c"
proof -
  note rc = in_boundsD[OF ib]
  from o wf rc obtain nb rows cells where s: "v = VRef nb" "nb < length h"
    "h ! nb = OList (map VRef rows)" "length rows = 8"
    "rows ! nat r < length h" "h ! (rows ! nat r) = OList cells"
    "length cells = 8" "list_all (dict_val n h) cells" "b ! nat r = map (piece_of h) cells"
    by (auto elim!: own_board_row)
  have nr: "nat r < 8" "nat c < 8" using rc by auto
  have l1: "h_load v r h = (Inr (VRef (rows ! nat r)), h)"
    using h_load_run[OF s(2,3), of r] rc s(4) nr by (simp add: s(1))
  have l2: "h_load (VRef (rows ! nat r)) c h = (Inr (cells ! nat c), h)"
    using h_load_run[OF s(5,6), of c] rc s(7) by simp
  have run: "h_load2 v r c h = (Inr (cells ! nat c), h)"
    by (simp add: h_load2_def hbind_apply l1 l2)
  have "dict_val n h (cells ! nat c)"
    using s(8,7) nr by (simp add: list_all_length)
  moreover have "piece_of h (cells ! nat c) = cell b r c"
    using s(9,7) nr by (simp add: cell_def)
  ultimately show ?thesis using run by blast
qed

lemma own_store2:
  assumes o: "own_board n h v b" and wf: "wf_board b" and ib: "in_bounds r c"
    and x: "dict_val n h x"
  shows "\<exists>h'. h_store2 v r c x h = (Inr (), h') \<and> length h' = length h \<and>
           take n h' = take n h \<and>
           own_board n h' v (set_cell b r c (piece_of h x)) \<and>
           (\<forall>y. dict_val n h' y = dict_val n h y) \<and> (\<forall>y. piece_of h' y = piece_of h y)"
proof -
  note rc = in_boundsD[OF ib]
  from o wf rc obtain nb rows cells where s: "v = VRef nb" "n \<le> nb" "nb < length h"
    "h ! nb = OList (map VRef rows)" "length rows = 8" "distinct rows" "nb \<notin> set rows"
    "list_all2 (own_row n h) rows b"
    "n \<le> rows ! nat r" "rows ! nat r < length h" "h ! (rows ! nat r) = OList cells"
    "length cells = 8" "list_all (dict_val n h) cells" "b ! nat r = map (piece_of h) cells"
    by (auto elim!: own_board_row)
  let ?a = "rows ! nat r"
  let ?cells = "cells[nat c := x]"
  let ?h = "h[?a := OList ?cells]"
  have nr: "nat r < 8" "nat c < 8" using rc by auto
  have l1: "h_load v r h = (Inr (VRef ?a), h)"
    using h_load_run[OF s(3,4), of r] rc s(5) nr by (simp add: s(1))
  have st: "h_store (VRef ?a) c x h = (Inr (), ?h)"
    using h_store_run[OF s(10,11), of c] rc s(12) by simp
  have run: "h_store2 v r c x h = (Inr (), ?h)"
    by (simp add: h_store2_def hbind_apply l1 st)
  have dv: "dict_val n ?h y = dict_val n h y" for y
    by (rule dict_val_update[OF s(11)])
  have po: "piece_of ?h y = piece_of h y" for y
    by (rule piece_of_update[OF s(11)])
  have pof: "piece_of ?h = piece_of h" and dvf: "dict_val n ?h = dict_val n h"
    using po dv by auto
  have "?a \<in> set rows" using s(5) nr by simp
  then have ane: "?a \<noteq> nb" using s(7) by auto
  have rowi: "own_row n ?h (rows ! i) (set_cell b r c (piece_of h x) ! i)" if i: "i < 8" for i
  proof (cases "i = nat r")
    case True
    have "own_row n ?h ?a ((b ! nat r)[nat c := piece_of h x])"
    proof (rule own_rowI[where cells = ?cells])
      show "n \<le> ?a" by (rule s(9))
      show "?a < length ?h" using s(10) by simp
      show "?h ! ?a = OList ?cells" using s(10) by simp
      show "list_all (dict_val n ?h) ?cells"
        using s(13) x set_update_subset_insert[of cells "nat c" x]
        by (auto simp add: list_all_iff dv)
      show "(b ! nat r)[nat c := piece_of h x] = map (piece_of ?h) ?cells"
        by (simp add: s(14) map_update pof)
    qed
    then show ?thesis
      using True i wf_board_len[OF wf] by (simp add: set_cell_def)
  next
    case False
    have ne: "rows ! i \<noteq> ?a"
      using False i nr s(5,6) by (simp add: nth_eq_iff_index_eq)
    from list_all2_nthD[OF s(8), of i] i s(5) have "own_row n h (rows ! i) (b ! i)" by simp
    then obtain cs where cs: "n \<le> rows ! i" "rows ! i < length h" "h ! (rows ! i) = OList cs"
      "list_all (dict_val n h) cs" "b ! i = map (piece_of h) cs"
      by (rule own_rowD)
    have "own_row n ?h (rows ! i) (b ! i)"
      using cs ne by (intro own_rowI[where cells = cs]) (simp_all add: dvf pof)
    then show ?thesis using False by (simp add: set_cell_def)
  qed
  have "list_all2 (own_row n ?h) rows (set_cell b r c (piece_of h x))"
    using rowi s(5) wf_board_len[OF wf_set_cell[OF wf]]
    by (simp add: list_all2_conv_all_nth)
  then have own: "own_board n ?h v (set_cell b r c (piece_of h x))"
    unfolding s(1) using s(2,3,4,6,7) ane
    by (intro own_boardI[where rows = rows]) simp_all
  have tk: "take n ?h = take n h" using s(9) by simp
  show ?thesis using run own tk dv po by auto
qed


lemma h_key_dict:
  assumes "d < length h" "h ! d = ODict t cl"
  shows "h_key (VRef d) ''type'' h = (Inr t, h)" "h_key (VRef d) ''color'' h = (Inr cl, h)"
  using assms by (simp_all add: h_key_def)

lemma dict_valD:
  assumes "dict_val n h (VRef d)"
  obtains t cl where "n \<le> d" "d < length h" "h ! d = ODict t cl"
  using assms by (auto simp add: dict_val_def split: obj.splits)

lemma piece_of_dict: "h ! d = ODict t cl \<Longrightarrow> piece_of h (VRef d) = Some \<lparr>ptype = t, pcolor = cl\<rparr>"
  by (simp add: piece_of_def)

lemma own_square:
  assumes o: "own_board n h v b" and wf: "wf_board b" and ib: "in_bounds r c"
  shows "h_square h v r c = Inr (cell b r c)"
proof -
  from own_load2[OF o wf ib] obtain x where
    x: "h_load2 v r c h = (Inr x, h)" "dict_val n h x" "piece_of h x = cell b r c"
    by blast
  show ?thesis
  proof (cases x)
    case VNone
    then show ?thesis using x by (simp add: h_square_def ebind_Inr piece_of_def)
  next
    case (VRef d)
    from x(2) obtain t cl where d: "d < length h" "h ! d = ODict t cl"
      unfolding VRef by (rule dict_valD)
    show ?thesis
      using x(1,3) h_key_dict[OF d] piece_of_dict[OF d(2)]
      by (simp add: h_square_def ebind_Inr VRef)
  qed
qed

lemma h_load2_snd: "snd (h_load2 v r c h) = h"
  by (simp add: h_load2_def hbind_def h_load_def split: sum.split)

lemma h_key_snd: "snd (h_key p k h) = h"
  by (simp add: h_key_def)

lemma h_square_Inr:
  assumes "h_square h v r c = Inr q"
  shows "\<exists>p. h_load2 v r c h = (Inr p, h) \<and>
           (case p of
              VNone \<Rightarrow> q = None
            | VRef a \<Rightarrow>
                (\<exists>t cl. h_key p ''type'' h = (Inr t, h) \<and> h_key p ''color'' h = (Inr cl, h)
                   \<and> q = Some \<lparr>ptype = t, pcolor = cl\<rparr>))"
proof -
  obtain res where l: "h_load2 v r c h = (res, h)"
    using h_load2_snd[of v r c h] by (cases "h_load2 v r c h") simp
  from assms obtain p where p: "res = Inr p"
    by (cases res) (simp_all add: h_square_def l ebind_def)
  show ?thesis
  proof (cases p)
    case VNone
    then show ?thesis using assms l p by (simp add: h_square_def ebind_Inr)
  next
    case (VRef a)
    obtain kt where kt: "h_key p ''type'' h = (kt, h)"
      using h_key_snd[of p "''type''" h] by (cases "h_key p ''type'' h") simp
    obtain kc where kc: "h_key p ''color'' h = (kc, h)"
      using h_key_snd[of p "''color''" h] by (cases "h_key p ''color'' h") simp
    from assms have e: "ebind kt (\<lambda>t. ebind kc (\<lambda>cl. Inr (Some \<lparr>ptype = t, pcolor = cl\<rparr>))) = Inr q"
      using l p kt kc VRef by (simp add: h_square_def ebind_Inr)
    then obtain t where t: "kt = Inr t" by (cases kt) (simp_all add: ebind_def)
    from e t obtain cl where cl: "kc = Inr cl" by (cases kc) (simp_all add: ebind_def)
    from e t cl have "q = Some \<lparr>ptype = t, pcolor = cl\<rparr>" by (simp add: ebind_Inr)
    then show ?thesis using l p kt kc t cl VRef by simp
  qed
qed

lemma h_shows_square:
  assumes sh: "h_shows old board b0" and wf: "wf_board b0" and k: "keeps old h"
    and ib: "in_bounds r c"
  shows "h_square h board r c = Inr (cell b0 r c)"
proof -
  have "(r, c) \<in> set all_squares" using ib set_all_squares by simp
  then have "h_square old board r c = board_get b0 r c"
    using sh by (auto simp add: h_shows_def list_all_iff)
  then have o: "h_square old board r c = Inr (cell b0 r c)"
    using board_get_wf[OF wf ib] by simp
  then have "h_square old board r c \<noteq> Inl BadAddress" by simp
  from h_square_keeps[OF k this] o show ?thesis by simp
qed

lemma h_copy_cell_step:
  assumes sq: "h_square h board r c = Inr (cell b0 r c)"
    and n: "n \<le> length h"
    and o: "own_board n h nbv nbd" and wf: "wf_board nbd" and ib: "in_bounds r c"
  shows "\<exists>h'. h_copy_cell board nbv (r, c) () h = (Inr (), h') \<and> length h \<le> length h' \<and>
           take n h' = take n h \<and> own_board n h' nbv (set_cell nbd r c (cell b0 r c))"
proof -
  from h_square_Inr[OF sq] obtain p where
    l: "h_load2 board r c h = (Inr p, h)"
    and p: "case p of
              VNone \<Rightarrow> cell b0 r c = None
            | VRef a \<Rightarrow>
                (\<exists>t cl. h_key p ''type'' h = (Inr t, h) \<and> h_key p ''color'' h = (Inr cl, h)
                   \<and> cell b0 r c = Some \<lparr>ptype = t, pcolor = cl\<rparr>)"
    by blast
  show ?thesis
  proof (cases p)
    case VNone
    have dv: "dict_val n h VNone" by (simp add: dict_val_def)
    from own_store2[OF o wf ib dv] obtain h' where
      h': "h_store2 nbv r c VNone h = (Inr (), h')" "length h' = length h"
        "take n h' = take n h" "own_board n h' nbv (set_cell nbd r c (piece_of h VNone))"
      by blast
    have "cell b0 r c = piece_of h VNone" using p VNone by (simp add: piece_of_def)
    then show ?thesis
      using h' l VNone by (simp add: h_copy_cell_def hbind_apply)
  next
    case (VRef a)
    from p obtain t cl where
      k: "h_key p ''type'' h = (Inr t, h)" "h_key p ''color'' h = (Inr cl, h)"
        "cell b0 r c = Some \<lparr>ptype = t, pcolor = cl\<rparr>"
      unfolding VRef by auto
    let ?h1 = "h @ [ODict t cl]"
    have o1: "own_board n ?h1 nbv nbd" using o by (rule own_board_append)
    have dv: "dict_val n ?h1 (VRef (length h))" using n by (simp add: dict_val_def)
    have po: "piece_of ?h1 (VRef (length h)) = cell b0 r c"
      by (simp add: piece_of_def k(3))
    from own_store2[OF o1 wf ib dv] obtain h' where
      h': "h_store2 nbv r c (VRef (length h)) ?h1 = (Inr (), h')" "length h' = length ?h1"
        "take n h' = take n ?h1"
        "own_board n h' nbv (set_cell nbd r c (piece_of ?h1 (VRef (length h))))"
      by blast
    have run: "h_copy_cell board nbv (r, c) () h = (Inr (), h')"
      using l k(1,2) h'(1) unfolding VRef
      by (simp add: h_copy_cell_def hbind_apply h_new_def)
    have "take n h' = take n h" using h'(3) n by simp
    then show ?thesis using run h'(2,4) po by simp
  qed
qed

lemma h_copy_loop:
  assumes sh: "h_shows old board b0" and wf0: "wf_board b0"
  shows "list_all (\<lambda>sq. in_bounds (fst sq) (snd sq)) sqs \<Longrightarrow>
         keeps old h \<Longrightarrow> own_board (length old) h nbv nbd \<Longrightarrow> wf_board nbd \<Longrightarrow>
         \<exists>h' nbd'. hfor_each sqs (h_copy_cell board nbv) () h = (Inr (), h') \<and> keeps old h' \<and>
            for_each sqs (copy_cell b0) nbd = Inr nbd' \<and> wf_board nbd' \<and>
            own_board (length old) h' nbv nbd'"
proof (induction sqs arbitrary: h nbd)
  case Nil
  then show ?case by (simp add: hreturn_def)
next
  case (Cons sq sqs)
  obtain r c where sq: "sq = (r, c)" by (cases sq)
  have ib: "in_bounds r c" and rest: "list_all (\<lambda>sq. in_bounds (fst sq) (snd sq)) sqs"
    using Cons.prems(1) by (simp_all add: sq)
  have n: "length old \<le> length h" using Cons.prems(2) by (simp add: keeps_def)
  have rd: "h_square h board r c = Inr (cell b0 r c)"
    by (rule h_shows_square[OF sh wf0 Cons.prems(2) ib])
  from h_copy_cell_step[OF rd n Cons.prems(3,4) ib] obtain h1 where
    h1: "h_copy_cell board nbv (r, c) () h = (Inr (), h1)" "length h \<le> length h1"
      "take (length old) h1 = take (length old) h"
      "own_board (length old) h1 nbv (set_cell nbd r c (cell b0 r c))"
    by blast
  have k1: "keeps old h1" using Cons.prems(2) h1(2,3) by (simp add: keeps_def)
  have wf1: "wf_board (set_cell nbd r c (cell b0 r c))" using Cons.prems(4) by (rule wf_set_cell)
  from Cons.IH[OF rest k1 h1(4) wf1] obtain h' nbd' where
    r: "hfor_each sqs (h_copy_cell board nbv) () h1 = (Inr (), h')" "keeps old h'"
      "for_each sqs (copy_cell b0) (set_cell nbd r c (cell b0 r c)) = Inr nbd'" "wf_board nbd'"
      "own_board (length old) h' nbv nbd'"
    by blast
  have pure: "copy_cell b0 sq nbd = Inr (set_cell nbd r c (cell b0 r c))"
    unfolding sq by (rule copy_cell_wf[OF wf0 Cons.prems(4) ib])
  show ?case
    using h1(1) r pure by (simp add: sq hbind_apply)
qed


lemma keeps_append: "keeps old h \<Longrightarrow> keeps old (h @ xs)"
  by (simp add: keeps_def)

lemma h_deep_copy_board_run:
  assumes sh: "h_shows old board b0" and wf0: "wf_board b0" and k: "keeps old h"
  shows "\<exists>nbv h'. h_deep_copy_board board h = (Inr nbv, h') \<and> keeps old h' \<and>
           own_board (length old) h' nbv b0"
proof -
  let ?h1 = "h @ replicate 8 (OList (replicate 8 VNone)) @ [OList (map VRef [length h ..< length h + 8])]"
  let ?nbv = "VRef (length h + 8)"
  have n: "length old \<le> length h" using k by (simp add: keeps_def)
  have k1: "keeps old ?h1" using k by (rule keeps_append)
  have o1: "own_board (length old) ?h1 ?nbv empty_board" using n by (rule own_empty_board)
  have sqs: "list_all (\<lambda>sq. in_bounds (fst sq) (snd sq)) all_squares"
    using set_all_squares by (auto simp add: list_all_iff)
  from h_copy_loop[OF sh wf0 sqs k1 o1 wf_empty_board] obtain h' nbd' where
    r: "hfor_each all_squares (h_copy_cell board ?nbv) () ?h1 = (Inr (), h')" "keeps old h'"
      "for_each all_squares (copy_cell b0) empty_board = Inr nbd'"
      "own_board (length old) h' ?nbv nbd'"
    by blast
  have "nbd' = b0" using r(3) deep_copy_board_wf[OF wf0] by (simp add: deep_copy_board_def)
  then show ?thesis
    using r by (simp add: h_deep_copy_board_def hbind_apply h_empty_board_run hreturn_def)
qed

lemma h_truthy_dict_val:
  assumes "dict_val n h x"
  shows "h_truthy x h = (Inr (x \<noteq> VNone), h)"
proof (cases x)
  case VNone
  then show ?thesis by (simp add: h_truthy_def)
next
  case (VRef d)
  from assms obtain t cl where "d < length h" "h ! d = ODict t cl"
    unfolding VRef by (rule dict_valD)
  then show ?thesis by (simp add: h_truthy_def VRef)
qed

lemma own_board_shows:
  assumes "own_board n h v b" "wf_board b"
  shows "h_shows h v b"
  unfolding h_shows_def list_all_iff
proof
  fix sq assume "sq \<in> set all_squares"
  then obtain r c where sq: "sq = (r, c)" and ib: "in_bounds r c"
    using set_all_squares by auto
  show "case sq of (r, c) \<Rightarrow> h_square h v r c = board_get b r c"
    unfolding sq using own_square[OF assms ib] board_get_wf[OF assms(2) ib] by simp
qed

lemma keeps_shows:
  assumes "h_shows old board b" "wf_board b" "keeps old h"
  shows "h_shows h board b"
  unfolding h_shows_def list_all_iff
proof
  fix sq assume "sq \<in> set all_squares"
  then obtain r c where sq: "sq = (r, c)" and ib: "in_bounds r c"
    using set_all_squares by auto
  show "case sq of (r, c) \<Rightarrow> h_square h board r c = board_get b r c"
    unfolding sq using h_shows_square[OF assms ib] board_get_wf[OF assms(2) ib] by simp
qed

lemma h_make_move_run:
  assumes sh: "h_shows old board b0" and wf0: "wf_board b0"
    and ib1: "in_bounds r1 c1" and ib2: "in_bounds r2 c2"
  shows "\<exists>nbv h'. h_make_move board ((r1, c1), (r2, c2)) old = (Inr nbv, h') \<and> keeps old h' \<and>
           own_board (length old) h' nbv
             (set_cell (set_cell b0 r1 c1 None) r2 c2 (landing (cell b0 r1 c1) r2))"
proof -
  let ?n = "length old"
  have k0: "keeps old old" by (simp add: keeps_def)
  from h_deep_copy_board_run[OF sh wf0 k0] obtain nbv h1 where
    dc: "h_deep_copy_board board old = (Inr nbv, h1)" and k1: "keeps old h1"
    and o1: "own_board ?n h1 nbv b0"
    by blast
  from own_load2[OF o1 wf0 ib1] obtain x where
    ld: "h_load2 nbv r1 c1 h1 = (Inr x, h1)" and dv1: "dict_val ?n h1 x"
    and po1: "piece_of h1 x = cell b0 r1 c1"
    by blast
  have dvn: "dict_val ?n h1 VNone" by (simp add: dict_val_def)
  from own_store2[OF o1 wf0 ib1 dvn] obtain h2 where
    st: "h_store2 nbv r1 c1 VNone h1 = (Inr (), h2)" and l2: "length h2 = length h1"
    and t2: "take ?n h2 = take ?n h1"
    and o2: "own_board ?n h2 nbv (set_cell b0 r1 c1 (piece_of h1 VNone))"
    and dv: "\<forall>y. dict_val ?n h2 y = dict_val ?n h1 y"
    and po: "\<forall>y. piece_of h2 y = piece_of h1 y"
    by blast
  let ?b2 = "set_cell b0 r1 c1 None"
  have o2': "own_board ?n h2 nbv ?b2" using o2 by (simp add: piece_of_def)
  have wf2: "wf_board ?b2" using wf0 by (rule wf_set_cell)
  have k2: "keeps old h2" using k1 l2 t2 by (simp add: keeps_def)
  have dv2: "dict_val ?n h2 x" using dv dv1 by simp
  have po2: "piece_of h2 x = cell b0 r1 c1" using po po1 by simp
  have tr: "h_truthy x h2 = (Inr (x \<noteq> VNone), h2)" by (rule h_truthy_dict_val[OF dv2])
  have prefix: "h_make_move board ((r1, c1), (r2, c2)) old =
     hbind (if x \<noteq> VNone then hbind (h_key x ''type'') (\<lambda>t. hreturn (t = ''P''))
               else hreturn False) (\<lambda>is_pawn.
        hbind (if is_pawn then
                 hbind (h_key x ''color'') (\<lambda>cl.
                   hreturn (r2 = (if cl = ''w'' then 0 else 7)))
               else hreturn False) (\<lambda>promotes.
          if promotes then
            hbind (h_key x ''color'') (\<lambda>cl.
            hbind (h_new (ODict ''Q'' cl)) (\<lambda>queen.
            hbind (h_store2 nbv r2 c2 queen) (\<lambda>_.
            hreturn nbv)))
          else
            hbind (h_store2 nbv r2 c2 x) (\<lambda>_.
            hreturn nbv))) h2"
    by (simp add: h_make_move_def hbind_apply dc ld st tr)
  show ?thesis
  proof (cases x)
    case VNone
    from own_store2[OF o2' wf2 ib2 dv2] obtain h3 where
      s3: "h_store2 nbv r2 c2 x h2 = (Inr (), h3)" "length h3 = length h2"
        "take ?n h3 = take ?n h2" "own_board ?n h3 nbv (set_cell ?b2 r2 c2 (piece_of h2 x))"
      by blast
    have k3: "keeps old h3" using k2 s3(2,3) by (simp add: keeps_def)
    have "cell b0 r1 c1 = None" using po2 VNone by (simp add: piece_of_def)
    then have "piece_of h2 x = landing (cell b0 r1 c1) r2"
      using po2 by (simp add: landing_def)
    then show ?thesis
      using prefix s3 k3 VNone by (simp add: hbind_apply hreturn_def)
  next
    case (VRef d)
    from dv2 obtain t cl where d: "d < length h2" "h2 ! d = ODict t cl"
      unfolding VRef by (rule dict_valD)
    note keys = h_key_dict[OF d]
    have pc: "cell b0 r1 c1 = Some \<lparr>ptype = t, pcolor = cl\<rparr>"
      using po2 piece_of_dict[OF d(2)] by (simp add: VRef)
    show ?thesis
    proof (cases "t = ''P'' \<and> r2 = (if cl = ''w'' then 0 else 7)")
      case True
      let ?h3 = "h2 @ [ODict ''Q'' cl]"
      have o3: "own_board ?n ?h3 nbv ?b2" using o2' by (rule own_board_append)
      have n2: "?n \<le> length h2" using k2 by (simp add: keeps_def)
      have dv3: "dict_val ?n ?h3 (VRef (length h2))" using n2 by (simp add: dict_val_def)
      from own_store2[OF o3 wf2 ib2 dv3] obtain h4 where
        s4: "h_store2 nbv r2 c2 (VRef (length h2)) ?h3 = (Inr (), h4)" "length h4 = length ?h3"
          "take ?n h4 = take ?n ?h3"
          "own_board ?n h4 nbv (set_cell ?b2 r2 c2 (piece_of ?h3 (VRef (length h2))))"
        by blast
      have k4: "keeps old h4" using k2 s4(2,3) by (simp add: keeps_def)
      have "piece_of ?h3 (VRef (length h2)) = landing (cell b0 r1 c1) r2"
        using True by (simp add: piece_of_def landing_def pc)
      then have o4: "own_board ?n h4 nbv (set_cell ?b2 r2 c2 (landing (cell b0 r1 c1) r2))"
        using s4(4) by simp
      have "h_make_move board ((r1, c1), (r2, c2)) old = (Inr nbv, h4)"
        unfolding prefix using True keys s4(1)
        by (simp add: VRef hbind_apply hreturn_def h_new_def)
      then show ?thesis using k4 o4 by blast
    next
      case False
      from own_store2[OF o2' wf2 ib2 dv2] obtain h3 where
        s3: "h_store2 nbv r2 c2 x h2 = (Inr (), h3)" "length h3 = length h2"
          "take ?n h3 = take ?n h2" "own_board ?n h3 nbv (set_cell ?b2 r2 c2 (piece_of h2 x))"
        by blast
      have k3: "keeps old h3" using k2 s3(2,3) by (simp add: keeps_def)
      have "piece_of h2 x = landing (cell b0 r1 c1) r2"
        using False po2 by (auto simp add: landing_def pc)
      then have o3: "own_board ?n h3 nbv (set_cell ?b2 r2 c2 (landing (cell b0 r1 c1) r2))"
        using s3(4) by simp
      have "h_make_move board ((r1, c1), (r2, c2)) old = (Inr nbv, h3)"
        unfolding prefix using False keys s3(1)
        by (auto simp add: VRef hbind_apply hreturn_def)
      then show ?thesis using k3 o3 by blast
    qed
  qed
qed


section \<open>The claims\<close>


text \<open>
  Claim C1. For every well-formed board and colour, \<^verbatim>\<open>generate_legal_moves\<close> returns
  exactly the pseudo-legal moves, in their order, after which \<^verbatim>\<open>is_in_check\<close> is false for
  the mover on the board \<^verbatim>\<open>make_move\<close> returns. So the legal moves are among the
  pseudo-legal ones; every pseudo-legal move can be simulated and tested, and it is legal
  if and only if the test says that the mover is not in check.
\<close>

theorem legal_moves_filter:
  assumes "wf_board b"
  shows "\<exists>pseudo legal.
           generate_pseudo_legal_moves b c = Inr pseudo \<and>
           generate_legal_moves b c = Inr legal \<and>
           legal = filter (\<lambda>m. ebind (make_move b m) (\<lambda>nb. is_in_check nb c) = Inr False)
                     pseudo \<and>
           set legal \<subseteq> set pseudo \<and>
           (\<forall>m \<in> set pseudo. \<exists>nb chk. make_move b m = Inr nb \<and> is_in_check nb c = Inr chk
               \<and> (m \<in> set legal \<longleftrightarrow> \<not> chk))"
proof -
  from generate_legal_moves_ok[OF assms, of c] obtain pseudo where
    ps: "generate_pseudo_legal_moves b c = Inr pseudo"
      "list_all (well_formed_move b c) pseudo"
      "generate_legal_moves b c =
         Inr (filter (\<lambda>m. ebind (make_move b m) (\<lambda>nb. is_in_check nb c) = Inr False) pseudo)"
    by blast
  let ?legal = "filter (\<lambda>m. ebind (make_move b m) (\<lambda>nb. is_in_check nb c) = Inr False) pseudo"
  have each: "\<exists>nb chk. make_move b m = Inr nb \<and> is_in_check nb c = Inr chk
               \<and> (m \<in> set ?legal \<longleftrightarrow> \<not> chk)" if "m \<in> set pseudo" for m
  proof -
    have "well_formed_move b c m" using ps(2) that by (simp add: list_all_iff)
    from simulate_ok[OF assms this, of c] obtain nb chk where
      "make_move b m = Inr nb" "is_in_check nb c = Inr chk" by blast
    then show ?thesis using that by (auto simp add: ebind_Inr)
  qed
  have "set ?legal \<subseteq> set pseudo" by auto
  with ps(1,3) each show ?thesis by blast
qed

text \<open>In \<open>pin_position\<close> White has thirteen pseudo-legal moves, of which the four moves of
  the king are legal.\<close>

theorem legal_moves_filter_witness:
  "\<exists>pseudo legal.
     generate_pseudo_legal_moves pin_position ''w'' = Inr pseudo \<and>
     generate_legal_moves pin_position ''w'' = Inr legal \<and>
     legal = filter (\<lambda>m. ebind (make_move pin_position m) (\<lambda>nb. is_in_check nb ''w'')
                            = Inr False) pseudo \<and>
     length pseudo = 13 \<and> length legal = 4 \<and> set legal \<subseteq> set pseudo"
proof -
  from legal_moves_filter[OF wf_pin_position, of "''w''"] obtain pseudo legal where
    h: "generate_pseudo_legal_moves pin_position ''w'' = Inr pseudo"
      "generate_legal_moves pin_position ''w'' = Inr legal"
      "legal = filter (\<lambda>m. ebind (make_move pin_position m) (\<lambda>nb. is_in_check nb ''w'')
                            = Inr False) pseudo"
      "set legal \<subseteq> set pseudo"
    by blast
  have "length pseudo = 13" using h(1) by (auto simp add: pin_pseudo_white)
  moreover have "length legal = 4" using h(2) by (auto simp add: pin_legal_white)
  ultimately show ?thesis using h by blast
qed


text \<open>
  Claim C2. For every well-formed board and every move from a square of the board that
  holds a piece to another square of the board, \<^verbatim>\<open>make_move\<close> returns a board on which the
  from-square is empty and the destination square holds a queen of the mover's colour when
  the piece is a pawn and the destination row is its last row (row 0 for \<^verbatim>\<open>'w'\<close>, row 7
  otherwise), and the moving piece otherwise, whatever stood there before. A move goes
  from one square to another: \<open>well_formed_move_not_null\<close> shows it for every move the
  generators return. The statement about the destination does not need this.
\<close>

theorem make_move_places_piece:
  assumes "wf_board b" "in_bounds r1 c1" "in_bounds r2 c2"
    and "board_get b r1 c1 = Inr (Some d)"
  shows "\<exists>nb. make_move b ((r1, c1), (r2, c2)) = Inr nb \<and>
           board_get nb r2 c2 =
             Inr (Some (if ptype d = ''P'' \<and> r2 = (if pcolor d = ''w'' then 0 else 7)
                        then \<lparr>ptype = ''Q'', pcolor = pcolor d\<rparr> else d)) \<and>
           ((r1, c1) \<noteq> (r2, c2) \<longrightarrow> board_get nb r1 c1 = Inr None)"
proof -
  let ?nb = "set_cell (set_cell b r1 c1 None) r2 c2 (landing (cell b r1 c1) r2)"
  have mv: "make_move b ((r1, c1), (r2, c2)) = Inr ?nb"
    using assms(1-3) by (rule make_move_wf)
  have wf: "wf_board ?nb" using assms(1) by (simp add: wf_set_cell)
  have src: "cell b r1 c1 = Some d"
    using assms by (simp add: board_get_wf)
  have dst: "cell ?nb r2 c2 = landing (Some d) r2"
    using assms(1-3) mv by (simp add: cell_make_move src)
  have src_empty: "cell ?nb r1 c1 = None" if "(r1, c1) \<noteq> (r2, c2)"
    using assms(1-3) mv that cell_make_move[OF assms(1-3) assms(2) mv] by auto
  show ?thesis
    using mv wf assms(2,3) dst src_empty by (auto simp add: board_get_wf landing_def)
qed

text \<open>The white pawn of \<open>promotion_position\<close> moves from row 1 to row 0: a white queen
  stands on the destination and the source square is empty.\<close>

theorem make_move_places_piece_witness:
  "\<exists>nb. make_move promotion_position ((1, 0), (0, 0)) = Inr nb \<and>
      board_get nb 0 0 = Inr (Some \<lparr>ptype = ''Q'', pcolor = ''w''\<rparr>) \<and>
      board_get nb 1 0 = Inr None"
proof -
  have g: "board_get promotion_position 1 0 = Inr (Some \<lparr>ptype = ''P'', pcolor = ''w''\<rparr>)"
    by (simp add: board_get_def py_get_def py_index_def ebind_def promotion_position_def)
  have ib: "in_bounds 1 0" "in_bounds 0 0"
    by (simp_all add: in_bounds_def ROWS_def COLS_def)
  from make_move_places_piece[OF wf_promotion_position ib g] show ?thesis by auto
qed

text \<open>
  Claim C3. For every well-formed board and every move between squares of the board whose
  from-square holds a piece, the board \<^verbatim>\<open>make_move\<close> returns has as many pieces as the
  input, or one less, and one less only when the destination square was occupied. More
  exactly, it has one less when the destination was occupied and is not the from-square
  itself, and as many otherwise. Promotion replaces the pawn by a queen, so it does not
  enter the count.
\<close>

theorem make_move_piece_count:
  assumes "wf_board b" "in_bounds r1 c1" "in_bounds r2 c2"
    and "board_get b r1 c1 = Inr (Some d)"
  shows "\<exists>nb. make_move b ((r1, c1), (r2, c2)) = Inr nb \<and>
           (piece_count nb = piece_count b \<or>
            piece_count nb + 1 = piece_count b \<and> board_get b r2 c2 \<noteq> Inr None) \<and>
           piece_count nb
             + (if board_get b r2 c2 \<noteq> Inr None \<and> (r1, c1) \<noteq> (r2, c2) then 1 else 0)
             = piece_count b"
proof -
  obtain nb where mv: "make_move b ((r1, c1), (r2, c2)) = Inr nb"
    using make_move_wf[OF assms(1-3)] by blast
  have src: "cell b r1 c1 \<noteq> None"
    using assms by (simp add: board_get_wf)
  have dst: "board_get b r2 c2 \<noteq> Inr None \<longleftrightarrow> cell b r2 c2 \<noteq> None"
    using assms(1,3) by (simp add: board_get_wf)
  from piece_count_make_move[OF assms(1-3) src mv]
  have "piece_count nb
          + (if board_get b r2 c2 \<noteq> Inr None \<and> (r1, c1) \<noteq> (r2, c2) then 1 else 0)
          = piece_count b"
    by (simp only: dst)
  then show ?thesis using mv by (auto split: if_splits)
qed

text \<open>In \<open>promotion_position\<close> (four pieces) the pawn promotes by capturing the rook
  (three pieces remain) or by stepping forward (four pieces remain).\<close>

theorem make_move_piece_count_witness:
  "piece_count promotion_position = 4 \<and>
   (\<exists>nb. make_move promotion_position ((1, 0), (0, 1)) = Inr nb \<and> piece_count nb = 3) \<and>
   (\<exists>nb. make_move promotion_position ((1, 0), (0, 0)) = Inr nb \<and> piece_count nb = 4)"
proof -
  have g: "board_get promotion_position 1 0 = Inr (Some \<lparr>ptype = ''P'', pcolor = ''w''\<rparr>)"
    by (simp add: board_get_def py_get_def py_index_def ebind_def promotion_position_def)
  have t1: "board_get promotion_position 0 1 \<noteq> Inr None"
    by (simp add: board_get_def py_get_def py_index_def ebind_def promotion_position_def)
  have t0: "board_get promotion_position 0 0 = Inr None"
    by (simp add: board_get_def py_get_def py_index_def ebind_def promotion_position_def)
  have ib: "in_bounds 1 0" "in_bounds 0 1" "in_bounds 0 0"
    by (simp_all add: in_bounds_def ROWS_def COLS_def)
  have n: "piece_count promotion_position = 4"
    by (simp add: piece_count_def promotion_position_def)
  from make_move_piece_count[OF wf_promotion_position ib(1,2) g]
    make_move_piece_count[OF wf_promotion_position ib(1,3) g]
  show ?thesis using n t1 t0 by auto
qed

text \<open>
  Claim C4. For every well-formed board and colour, \<^verbatim>\<open>is_in_check\<close> returns, and it returns
  true if and only if a king of that colour is on the board and its square is among the
  squares attacked by the opponent (\<^verbatim>\<open>"b" if color == "w" else "w"\<close>); the king is the one
  \<^verbatim>\<open>find_king\<close> reports, the first in the order of the loops should the board hold several.
  With no king of the colour on the board the result is false, not a failure.
\<close>

theorem is_in_check_iff:
  assumes "wf_board b"
  shows "\<exists>att. squares_attacked_by b (if c = ''w'' then ''b'' else ''w'') = Inr att \<and>
           is_in_check b c =
             Inr (\<exists>kp. king_at b c kp
                    \<and> (\<forall>sq. king_at b c sq \<longrightarrow> sq = kp \<or> row_major_before kp sq)
                    \<and> kp \<in> att) \<and>
           ((\<forall>sq. \<not> king_at b c sq) \<longrightarrow> is_in_check b c = Inr False)"
proof -
  from is_in_check_ok[OF assms, of c] obtain att where
    att: "squares_attacked_by b (if c = ''w'' then ''b'' else ''w'') = Inr att"
    and chk: "is_in_check b c =
             Inr (case find (king_at b c) all_squares of None \<Rightarrow> False | Some kp \<Rightarrow> kp \<in> att)"
    by blast
  have eq: "(case find (king_at b c) all_squares of None \<Rightarrow> False | Some kp \<Rightarrow> kp \<in> att)
        \<longleftrightarrow> (\<exists>kp. king_at b c kp
                    \<and> (\<forall>sq. king_at b c sq \<longrightarrow> sq = kp \<or> row_major_before kp sq)
                    \<and> kp \<in> att)"
  proof (cases "find (king_at b c) all_squares")
    case None
    then show ?thesis using find_king_none[of b c] by auto
  next
    case (Some kp)
    have "kp' = kp" if "king_at b c kp'"
      "\<forall>sq. king_at b c sq \<longrightarrow> sq = kp' \<or> row_major_before kp' sq" for kp'
      using that Some find_king_first[of b c kp'] by simp
    moreover have "king_at b c kp
        \<and> (\<forall>sq. king_at b c sq \<longrightarrow> sq = kp \<or> row_major_before kp sq)"
      using Some find_king_first[of b c kp] by simp
    ultimately show ?thesis unfolding Some by (simp only: option.case) blast
  qed
  have none: "is_in_check b c = Inr False" if "\<forall>sq. \<not> king_at b c sq"
    using chk that find_king_none[of b c] by simp
  have "is_in_check b c =
             Inr (\<exists>kp. king_at b c kp
                    \<and> (\<forall>sq. king_at b c sq \<longrightarrow> sq = kp \<or> row_major_before kp sq)
                    \<and> kp \<in> att)"
    unfolding chk eq ..
  then show ?thesis using att none by blast
qed

text \<open>In \<open>check_position\<close> the white king stands on a square the black rook attacks.\<close>

theorem is_in_check_iff_witness:
  "is_in_check check_position ''w'' = Inr True \<and>
   (\<exists>att kp. squares_attacked_by check_position ''b'' = Inr att
      \<and> king_at check_position ''w'' kp \<and> kp \<in> att)"
proof -
  have t: "is_in_check check_position ''w'' = Inr True"
    by code_simp
  from is_in_check_iff[OF wf_check_position, of "''w''"] obtain att where
    att: "squares_attacked_by check_position ''b'' = Inr att"
    and chk: "is_in_check check_position ''w'' =
             Inr (\<exists>kp. king_at check_position ''w'' kp
                    \<and> (\<forall>sq. king_at check_position ''w'' sq
                          \<longrightarrow> sq = kp \<or> row_major_before kp sq)
                    \<and> kp \<in> att)"
    by auto
  from chk t obtain kp where "king_at check_position ''w'' kp" "kp \<in> att"
    by auto
  with att t show ?thesis by blast
qed

text \<open>
  Claim C5. For every well-formed board and every draw of the random source,
  \<^verbatim>\<open>ai_choose_move\<close> returns \<^verbatim>\<open>None\<close> if and only if Black has no legal move; otherwise it
  returns a legal move of Black, and one whose destination square is occupied whenever
  there is such a legal move. When exactly one legal move captures, that move is returned.
\<close>

theorem ai_choose_move_prefers_captures:
  assumes "wf_board b"
  shows "\<exists>legal. generate_legal_moves b ''b'' = Inr legal \<and>
           (ai_choose_move seed b = Inr None \<longleftrightarrow> legal = []) \<and>
           (legal \<noteq> [] \<longrightarrow>
              (\<exists>m. ai_choose_move seed b = Inr (Some m) \<and> m \<in> set legal \<and>
                 (filter (occupied_target b) legal \<noteq> [] \<longrightarrow>
                    m \<in> set (filter (occupied_target b) legal)) \<and>
                 (\<forall>x. set (filter (occupied_target b) legal) = {x} \<longrightarrow> m = x)))"
proof -
  from ai_choose_move_ok[OF assms, of seed] obtain legal where
    lg: "generate_legal_moves b ''b'' = Inr legal"
    and ai: "ai_choose_move seed b =
             (if legal = [] then Inr None
              else ebind (random_choice seed
                     (if filter (occupied_target b) legal \<noteq> [] then filter (occupied_target b) legal
                      else legal)) (\<lambda>m. Inr (Some m)))"
    by blast
  let ?caps = "filter (occupied_target b) legal"
  let ?pool = "if ?caps \<noteq> [] then ?caps else legal"
  show ?thesis
  proof (cases "legal = []")
    case True
    then show ?thesis using lg ai by simp
  next
    case False
    then have "?pool \<noteq> []" by simp
    from random_choice_member[OF this, of seed] obtain m where
      m: "random_choice seed ?pool = Inr m" "m \<in> set ?pool"
      by blast
    have res: "ai_choose_move seed b = Inr (Some m)"
      unfolding ai using False m(1) by (simp add: ebind_Inr)
    have in_legal: "m \<in> set legal" using m(2) by (auto split: if_splits)
    have in_caps: "m \<in> set ?caps" if "?caps \<noteq> []" using m(2) that by simp
    have one: "m = x" if "set ?caps = {x}" for x
    proof -
      have "set ?caps \<noteq> {}" unfolding that by simp
      then have "?caps \<noteq> []" by (simp only: set_empty not_False_eq_True)
      from in_caps[OF this] show ?thesis unfolding that by simp
    qed
    show ?thesis
      using lg res False in_legal in_caps one by auto
  qed
qed

text \<open>In \<open>pin_position\<close> Black has fifteen legal moves, and only the rook's capture of
  the bishop lands on an occupied square: it is chosen whatever the random source draws.\<close>

theorem ai_choose_move_prefers_captures_witness:
  "\<forall>seed. ai_choose_move seed pin_position = Inr (Some ((0, 4), (6, 4)))"
proof
  fix seed
  from ai_choose_move_prefers_captures[OF wf_pin_position, of seed] obtain legal where
    lg: "generate_legal_moves pin_position ''b'' = Inr legal"
    and r: "legal \<noteq> [] \<longrightarrow>
              (\<exists>m. ai_choose_move seed pin_position = Inr (Some m) \<and> m \<in> set legal \<and>
                 (filter (occupied_target pin_position) legal \<noteq> [] \<longrightarrow>
                    m \<in> set (filter (occupied_target pin_position) legal)) \<and>
                 (\<forall>x. set (filter (occupied_target pin_position) legal) = {x} \<longrightarrow> m = x))"
    by blast
  have ld: "legal = [((0, 0), (0, 1)), ((0, 0), (1, 0)), ((0, 0), (1, 1)), ((0, 4), (1, 4)),
          ((0, 4), (2, 4)), ((0, 4), (3, 4)), ((0, 4), (4, 4)), ((0, 4), (5, 4)),
          ((0, 4), (6, 4)), ((0, 4), (0, 3)), ((0, 4), (0, 2)), ((0, 4), (0, 1)),
          ((0, 4), (0, 5)), ((0, 4), (0, 6)), ((0, 4), (0, 7))]"
    using lg by (simp add: pin_legal_black)
  have caps: "filter (occupied_target pin_position) legal = [((0, 4), (6, 4))]"
    unfolding ld
    by (simp add: occupied_target_def board_get_def py_get_def py_index_def ebind_def
        pin_position_def)
  from r caps ld show "ai_choose_move seed pin_position = Inr (Some ((0, 4), (6, 4)))"
    by auto
qed

text \<open>
  Claim C6. \<^verbatim>\<open>initial_board()\<close> returns the starting position; there White has exactly
  twenty legal moves, the eight single steps and the eight double steps of the pawns and
  the four moves of the knights, and neither White nor Black is in check.
\<close>

theorem initial_board_legal_moves:
  "\<exists>b legal.
     initial_board = Inr b \<and> generate_legal_moves b ''w'' = Inr legal \<and>
     length legal = 20 \<and> distinct legal \<and> card (set legal) = 20 \<and>
     set legal =
       (\<lambda>c. ((6, c), (5, c))) ` {0..7} \<union> (\<lambda>c. ((6, c), (4, c))) ` {0..7}
       \<union> {((7, 1), (5, 0)), ((7, 1), (5, 2)), ((7, 6), (5, 5)), ((7, 6), (5, 7))} \<and>
     is_in_check b ''w'' = Inr False \<and> is_in_check b ''b'' = Inr False"
proof -
  let ?legal = "[((6, 0), (5, 0)), ((6, 0), (4, 0)), ((6, 1), (5, 1)), ((6, 1), (4, 1)),
          ((6, 2), (5, 2)), ((6, 2), (4, 2)), ((6, 3), (5, 3)), ((6, 3), (4, 3)),
          ((6, 4), (5, 4)), ((6, 4), (4, 4)), ((6, 5), (5, 5)), ((6, 5), (4, 5)),
          ((6, 6), (5, 6)), ((6, 6), (4, 6)), ((6, 7), (5, 7)), ((6, 7), (4, 7)),
          ((7, 1), (5, 0)), ((7, 1), (5, 2)), ((7, 6), (5, 5)), ((7, 6), (5, 7))]
          :: Move list"
  have d: "distinct ?legal" by simp
  have l: "length ?legal = 20" by simp
  have c: "card (set ?legal) = 20" using distinct_card[OF d] l by simp
  have cols: "{0..7::int} = {0, 1, 2, 3, 4, 5, 6, 7}" by auto
  have s: "set ?legal =
       (\<lambda>c. ((6, c), (5, c))) ` {0..7} \<union> (\<lambda>c. ((6, c), (4, c))) ` {0..7}
       \<union> {((7, 1), (5, 0)), ((7, 1), (5, 2)), ((7, 6), (5, 5)), ((7, 6), (5, 7))}"
    unfolding cols by auto
  show ?thesis
    using initial_board_value start_legal_white start_not_in_check d l c s by blast
qed


text \<open>
  Claim C7. There is a board with a pinned piece: in \<open>pin_position\<close> the move of the white
  bishop from (6, 4) to (5, 3) is pseudo-legal and not legal, and after it the white king
  is in check.
\<close>

theorem pinned_piece_exists:
  "\<exists>b c m pseudo legal d nb.
     generate_pseudo_legal_moves b c = Inr pseudo \<and> generate_legal_moves b c = Inr legal \<and>
     m \<in> set pseudo \<and> m \<notin> set legal \<and>
     board_get b (fst (fst m)) (snd (fst m)) = Inr (Some d) \<and> pcolor d = c \<and> ptype d \<noteq> ''K'' \<and>
     make_move b m = Inr nb \<and> is_in_check nb c = Inr True"
proof -
  obtain nb where nb: "make_move pin_position ((6, 4), (5, 3)) = Inr nb"
    and chk: "is_in_check nb ''w'' = Inr True"
    using pin_move_check(2) by (auto simp add: ebind_def split: sum.splits)
  have "((6, 4), (5, 3)) \<in> set [((6, 4), (5, 3)), ((6, 4), (4, 2)), ((6, 4), (3, 1)), ((6, 4), (2, 0)),
          ((6, 4), (5, 5)), ((6, 4), (4, 6)), ((6, 4), (3, 7)), ((6, 4), (7, 3)),
          ((6, 4), (7, 5)), ((7, 4), (6, 3)), ((7, 4), (6, 5)), ((7, 4), (7, 3)),
          ((7, 4), (7, 5 :: int)) :: Move]" by simp
  moreover have "((6, 4), (5, 3)) \<notin> set [((7, 4), (6, 3)), ((7, 4), (6, 5)), ((7, 4), (7, 3)), ((7, 4), (7, 5 :: int)) :: Move]"
    by simp
  ultimately show ?thesis
    using pin_pseudo_white pin_legal_white pin_move_check(1) nb chk
    by (intro exI[of _ pin_position] exI[of _ "''w''"] exI[of _ "((6, 4), (5, 3))"]) fastforce
qed

text \<open>
  Claim C8. On the explicit store, for every store, board value and move, whether
  \<^verbatim>\<open>make_move\<close> returns or raises: every object of the store before the call is in the store
  after it, unchanged, so every square of the input board shows the same optional piece
  as before; and the board returned is a new object from which only new objects can be
  reached, the rows and the piece dictionaries included, so it shares no object with the
  input board.
\<close>

theorem h_make_move_frame:
  assumes "h_make_move board m h = (res, h')"
  shows "length h \<le> length h' \<and> take (length h) h' = h \<and>
         (\<forall>r c. h_square h board r c \<noteq> Inl BadAddress \<longrightarrow>
                  h_square h' board r c = h_square h board r c) \<and>
         (\<forall>nb. res = Inr nb \<longrightarrow>
            (\<exists>a. nb = VRef a) \<and> (\<forall>a. reach h' nb a \<longrightarrow> length h \<le> a))"
proof -
  note hm = hoareD[OF hoare_make_move hinv_refl assms]
  have k: "keeps h h'" and z: "zone_closed (length h) h'"
    using hm(1) by (simp_all add: hinv_def)
  have sq: "h_square h' board r c = h_square h board r c"
    if "h_square h board r c \<noteq> Inl BadAddress" for r c
    by (rule h_square_keeps[OF k that])
  have new: "(\<exists>a. nb = VRef a) \<and> (\<forall>a. reach h' nb a \<longrightarrow> length h \<le> a)"
    if "res = Inr nb" for nb
  proof -
    from hm(2)[OF that] have f: "fresh_val (length h) nb" and n: "nb \<noteq> VNone" by simp_all
    from n have "\<exists>a. nb = VRef a" by (cases nb) simp_all
    moreover have "length h \<le> a" if "reach h' nb a" for a
      by (rule reach_fresh[OF that z f])
    ultimately show ?thesis by blast
  qed
  show ?thesis using k sq new by (simp add: keeps_def)
qed


text \<open>The bishop's move in \<open>pin_heap\<close>: the input board at address 8 still shows the
  bishop on (6, 4), the new board at address 17 shows it on (5, 3), and the input board is
  not reachable from the new one.\<close>

theorem h_make_move_frame_witness:
  "fst (h_make_move (VRef 8) ((6, 4), (5, 3)) pin_heap) = Inr (VRef 17) \<and>
   take (length pin_heap) (snd (h_make_move (VRef 8) ((6, 4), (5, 3)) pin_heap)) = pin_heap \<and>
   h_square (snd (h_make_move (VRef 8) ((6, 4), (5, 3)) pin_heap)) (VRef 8) 6 4
     = Inr (Some \<lparr>ptype = ''B'', pcolor = ''w''\<rparr>) \<and>
   h_square (snd (h_make_move (VRef 8) ((6, 4), (5, 3)) pin_heap)) (VRef 17) 6 4 = Inr None \<and>
   h_square (snd (h_make_move (VRef 8) ((6, 4), (5, 3)) pin_heap)) (VRef 17) 5 3
     = Inr (Some \<lparr>ptype = ''B'', pcolor = ''w''\<rparr>) \<and>
   \<not> reach (snd (h_make_move (VRef 8) ((6, 4), (5, 3)) pin_heap)) (VRef 17) 8"
proof -
  obtain res h' where run: "h_make_move (VRef 8) ((6, 4), (5, 3)) pin_heap = (res, h')"
    by (cases "h_make_move (VRef 8) ((6, 4), (5, 3)) pin_heap")
  have res: "res = Inr (VRef 17)" using pin_heap_move(1) run by simp
  note fr = h_make_move_frame[OF run]
  have old: "h_square h' (VRef 8) 6 4 = Inr (Some \<lparr>ptype = ''B'', pcolor = ''w''\<rparr>)"
    using fr pin_heap_move(2) by simp
  have "\<not> reach h' (VRef 17) 8"
  proof
    assume "reach h' (VRef 17) 8"
    with fr res have "length pin_heap \<le> 8" by blast
    then show False by (simp add: pin_heap_def)
  qed
  then show ?thesis using fr res old pin_heap_move(3,4) run by simp
qed

text \<open>
  Claim C9. For every well-formed board and colour, \<^verbatim>\<open>generate_pseudo_legal_moves\<close> returns,
  and every move it returns goes from a square of the board that holds a piece of that
  colour to a square of the board that holds no piece of that colour.
\<close>

theorem pseudo_legal_moves_well_formed:
  assumes "wf_board b"
  shows "\<exists>ms. generate_pseudo_legal_moves b c = Inr ms \<and>
           (\<forall>m \<in> set ms. case m of ((r1, c1), (r2, c2)) \<Rightarrow>
              in_bounds r1 c1 \<and> in_bounds r2 c2
              \<and> (\<exists>d. board_get b r1 c1 = Inr (Some d) \<and> pcolor d = c)
              \<and> (\<forall>d. board_get b r2 c2 = Inr (Some d) \<longrightarrow> pcolor d \<noteq> c))"
proof -
  from generate_pseudo_legal_moves_ok[OF assms, of c] obtain ms where
    ms: "generate_pseudo_legal_moves b c = Inr ms" "list_all (well_formed_move b c) ms"
    by blast
  have each: "in_bounds r1 c1 \<and> in_bounds r2 c2
              \<and> (\<exists>d. board_get b r1 c1 = Inr (Some d) \<and> pcolor d = c)
              \<and> (\<forall>d. board_get b r2 c2 = Inr (Some d) \<longrightarrow> pcolor d \<noteq> c)"
    if "((r1, c1), (r2, c2)) \<in> set ms" for r1 c1 r2 c2
  proof -
    have w: "well_formed_move b c ((r1, c1), (r2, c2))"
      using ms(2) that by (simp add: list_all_iff)
    then have ib: "in_bounds r1 c1" "in_bounds r2 c2"
      by (simp_all add: well_formed_move_def)
    show ?thesis
      using w ib board_get_wf[OF assms ib(1)] board_get_wf[OF assms ib(2)]
      by (auto simp add: well_formed_move_def split: option.splits)
  qed
  have "\<forall>m \<in> set ms. case m of ((r1, c1), (r2, c2)) \<Rightarrow>
              in_bounds r1 c1 \<and> in_bounds r2 c2
              \<and> (\<exists>d. board_get b r1 c1 = Inr (Some d) \<and> pcolor d = c)
              \<and> (\<forall>d. board_get b r2 c2 = Inr (Some d) \<longrightarrow> pcolor d \<noteq> c)"
  proof
    fix m assume m: "m \<in> set ms"
    obtain r1 c1 r2 c2 where md: "m = ((r1, c1), (r2, c2))" by (cases m) auto
    from each[of r1 c1 r2 c2] m
    show "case m of ((r1, c1), (r2, c2)) \<Rightarrow>
              in_bounds r1 c1 \<and> in_bounds r2 c2
              \<and> (\<exists>d. board_get b r1 c1 = Inr (Some d) \<and> pcolor d = c)
              \<and> (\<forall>d. board_get b r2 c2 = Inr (Some d) \<longrightarrow> pcolor d \<noteq> c)"
      unfolding md by simp
  qed
  with ms(1) show ?thesis by blast
qed

text \<open>The thirteen pseudo-legal moves of White in \<open>pin_position\<close> all start from a white
  piece and end on an empty square of the board.\<close>

theorem pseudo_legal_moves_well_formed_witness:
  "\<exists>ms. generate_pseudo_legal_moves pin_position ''w'' = Inr ms \<and> length ms = 13 \<and>
      list_all (\<lambda>m. case m of ((r1, c1), (r2, c2)) \<Rightarrow>
              in_bounds r1 c1 \<and> in_bounds r2 c2
              \<and> (\<exists>d. board_get pin_position r1 c1 = Inr (Some d) \<and> pcolor d = ''w'')
              \<and> board_get pin_position r2 c2 = Inr None) ms"
proof -
  from pseudo_legal_moves_well_formed[OF wf_pin_position, of "''w''"] obtain ms where
    ms: "generate_pseudo_legal_moves pin_position ''w'' = Inr ms"
    and wfm: "\<forall>m \<in> set ms. case m of ((r1, c1), (r2, c2)) \<Rightarrow>
              in_bounds r1 c1 \<and> in_bounds r2 c2
              \<and> (\<exists>d. board_get pin_position r1 c1 = Inr (Some d) \<and> pcolor d = ''w'')
              \<and> (\<forall>d. board_get pin_position r2 c2 = Inr (Some d) \<longrightarrow> pcolor d \<noteq> ''w'')"
    by blast
  have msd: "ms = [((6, 4), (5, 3)), ((6, 4), (4, 2)), ((6, 4), (3, 1)), ((6, 4), (2, 0)),
          ((6, 4), (5, 5)), ((6, 4), (4, 6)), ((6, 4), (3, 7)), ((6, 4), (7, 3)),
          ((6, 4), (7, 5)), ((7, 4), (6, 3)), ((7, 4), (6, 5)), ((7, 4), (7, 3)),
          ((7, 4), (7, 5))]"
    using ms by (simp add: pin_pseudo_white)
  have len: "length ms = 13" by (simp add: msd)
  have empty: "list_all (\<lambda>m. case m of ((r1, c1), (r2, c2)) \<Rightarrow>
                  board_get pin_position r2 c2 = Inr None) ms"
    unfolding msd
    by (simp add: board_get_def py_get_def py_index_def ebind_def pin_position_def)
  show ?thesis
    using ms len wfm empty by (auto simp add: list_all_iff)
qed


text \<open>
  Claim C10. If the from-square of the move holds no piece, \<^verbatim>\<open>make_move\<close> still returns a
  board, for every well-formed board and squares of the board, and on that board the
  from-square and the destination square are both empty: a piece that stood on the
  destination is removed although no piece moved.
\<close>

theorem make_move_empty_source:
  assumes "wf_board b" "in_bounds r1 c1" "in_bounds r2 c2"
    and "board_get b r1 c1 = Inr None"
  shows "\<exists>nb. make_move b ((r1, c1), (r2, c2)) = Inr nb \<and>
           board_get nb r1 c1 = Inr None \<and> board_get nb r2 c2 = Inr None"
proof -
  let ?nb = "set_cell (set_cell b r1 c1 None) r2 c2 (landing (cell b r1 c1) r2)"
  have mv: "make_move b ((r1, c1), (r2, c2)) = Inr ?nb"
    using assms(1-3) by (rule make_move_wf)
  have wf: "wf_board ?nb" using assms(1) by (simp add: wf_set_cell)
  have src: "cell b r1 c1 = None"
    using assms by (simp add: board_get_wf)
  have lnd: "landing (cell b r1 c1) r2 = None"
    by (simp add: src landing_def)
  have "cell ?nb r2 c2 = None"
    using cell_make_move[OF assms(1-3) assms(3) mv] lnd by auto
  moreover have "cell ?nb r1 c1 = None"
    using cell_make_move[OF assms(1-3) assms(2) mv] lnd by auto
  ultimately show ?thesis
    using mv wf assms(2,3) by (simp add: board_get_wf)
qed

text \<open>From the empty square (4, 0) of the starting position to the white pawn on
  (6, 0): the pawn is gone.\<close>

theorem make_move_empty_source_witness:
  "board_get start_position 6 0 = Inr (Some \<lparr>ptype = ''P'', pcolor = ''w''\<rparr>) \<and>
   (\<exists>nb. make_move start_position ((4, 0), (6, 0)) = Inr nb \<and>
      board_get nb 4 0 = Inr None \<and> board_get nb 6 0 = Inr None)"
proof -
  have g: "board_get start_position 4 0 = Inr None"
    by (simp add: board_get_def py_get_def py_index_def ebind_def start_position_def)
  have d: "board_get start_position 6 0 = Inr (Some \<lparr>ptype = ''P'', pcolor = ''w''\<rparr>)"
    by (simp add: board_get_def py_get_def py_index_def ebind_def start_position_def)
  have ib: "in_bounds 4 0" "in_bounds 6 0"
    by (simp_all add: in_bounds_def ROWS_def COLS_def)
  from make_move_empty_source[OF wf_start_position ib g] d show ?thesis by simp
qed


section \<open>Further properties\<close>

text \<open>
  Extra X1. The two models of \<^verbatim>\<open>make_move\<close> agree: when the board value reads in the store
  as the well-formed board \<open>b\<close> and the move is between squares of the board, the model on
  the store returns a board value that reads as the board the pure model returns, and the
  input board value still reads as \<open>b\<close>.
\<close>

theorem h_make_move_refines:
  assumes "wf_board b" "h_shows h board b" "in_bounds r1 c1" "in_bounds r2 c2"
  shows "\<exists>nb h' b'. h_make_move board ((r1, c1), (r2, c2)) h = (Inr nb, h') \<and>
           make_move b ((r1, c1), (r2, c2)) = Inr b' \<and>
           h_shows h' nb b' \<and> h_shows h' board b"
proof -
  let ?b' = "set_cell (set_cell b r1 c1 None) r2 c2 (landing (cell b r1 c1) r2)"
  from h_make_move_run[OF assms(2,1,3,4)] obtain nbv h' where
    r: "h_make_move board ((r1, c1), (r2, c2)) h = (Inr nbv, h')" "keeps h h'"
      "own_board (length h) h' nbv ?b'"
    by blast
  have wf': "wf_board ?b'" using assms(1) by (simp add: wf_set_cell)
  have "h_shows h' nbv ?b'" by (rule own_board_shows[OF r(3) wf'])
  moreover have "h_shows h' board b" by (rule keeps_shows[OF assms(2,1) r(2)])
  moreover have "make_move b ((r1, c1), (r2, c2)) = Inr ?b'"
    by (rule make_move_wf[OF assms(1,3,4)])
  ultimately show ?thesis using r(1) by blast
qed

text \<open>The bishop's move in \<open>pin_heap\<close>, which reads as \<open>pin_position\<close>.\<close>

theorem h_make_move_refines_witness:
  "h_shows pin_heap (VRef 8) pin_position \<and>
   (\<exists>nb h' b'. h_make_move (VRef 8) ((6, 4), (5, 3)) pin_heap = (Inr nb, h') \<and>
      make_move pin_position ((6, 4), (5, 3)) = Inr b' \<and>
      h_shows h' nb b' \<and> h_shows h' (VRef 8) pin_position)"
proof -
  have ib: "in_bounds 6 4" "in_bounds 5 3"
    by (simp_all add: in_bounds_def ROWS_def COLS_def)
  from h_make_move_refines[OF wf_pin_position pin_heap_shows ib] pin_heap_shows
  show ?thesis by blast
qed

end
